theory Spec2Isabelle
  imports Complex_Main "HOL-Library.Stream"
begin

section \<open>Constants (lib/constants.ts)\<close>

definition FLOORS :: int where
  "FLOORS = 10"

definition ELEVATOR_COUNT :: nat where
  "ELEVATOR_COUNT = 4"

definition MOVE_DURATION_MS :: int where
  "MOVE_DURATION_MS = 10000"

definition LOADING_DURATION_MS :: int where
  "LOADING_DURATION_MS = 10000"

definition MAX_LOG_ENTRIES :: nat where
  "MAX_LOG_ENTRIES = 100"

text \<open>
  \<open>ELEVATOR_STATES\<close> is the set of string literals \<open>'idle' | 'up' | 'down'\<close>,
  \<open>CALL_DIRECTIONS\<close> the set \<open>'up' | 'down'\<close>, \<open>LOG_TYPES\<close> five literals.
\<close>

datatype ElevatorDirection = IDLE | MOVING_UP | MOVING_DOWN

datatype CallDirection = UP | DOWN

datatype LogType = CALL | PICKUP | DROPOFF | MOVEMENT | SYSTEM

text \<open>A call direction read as an elevator direction: both \<open>UP\<close> and
  \<open>MOVING_UP\<close> are the string \<open>'up'\<close>, both \<open>DOWN\<close> and \<open>MOVING_DOWN\<close> are \<open>'down'\<close>.\<close>

fun as_state :: "CallDirection \<Rightarrow> ElevatorDirection" where
  "as_state UP = MOVING_UP"
| "as_state DOWN = MOVING_DOWN"

fun direction_str :: "ElevatorDirection \<Rightarrow> string" where
  "direction_str IDLE = ''idle''"
| "direction_str MOVING_UP = ''up''"
| "direction_str MOVING_DOWN = ''down''"

section \<open>Data model (types/elevator.ts)\<close>

text \<open>
  A JavaScript \<open>Set<number>\<close> is a list of its elements in insertion order, without
  duplicates. Numbers are integers throughout.
\<close>

type_synonym number_set = "int list"

definition Set_has :: "number_set \<Rightarrow> int \<Rightarrow> bool" where
  "Set_has s x = (x \<in> set s)"

definition Set_add :: "number_set \<Rightarrow> int \<Rightarrow> number_set" where
  "Set_add s x = (if x \<in> set s then s else s @ [x])"

definition Set_delete :: "number_set \<Rightarrow> int \<Rightarrow> number_set" where
  "Set_delete s x = filter (\<lambda>y. y \<noteq> x) s"

definition Set_size :: "number_set \<Rightarrow> nat" where
  "Set_size s = length s"

definition new_Set :: "int list \<Rightarrow> number_set" where
  "new_Set xs = fold (\<lambda>x s. Set_add s x) xs []"

record Elevator =
  elevator_id :: int
  currentFloor :: int
  direction :: ElevatorDirection
  isMoving :: bool
  isLoading :: bool
  destinationFloors :: number_set
  passengers :: nat
  lastActivity :: int

record FloorCall =
  call_id :: string
  call_floor :: int
  call_direction :: CallDirection
  call_timestamp :: int
  assignedElevator :: "int option"

text \<open>
  The id of a log entry is \<open>log-${Date.now()}-${Math.random().toString(36).substr(2, 9)}\<close>;
  it is kept as the pair of the clock reading and the random draw it is printed from.
\<close>

record LogEntry =
  log_id :: "int \<times> real"
  log_timestamp :: int
  log_type :: LogType
  log_message :: string
  log_elevatorId :: "int option"
  log_floor :: "int option"

section \<open>Arrays\<close>

text \<open>
  \<open>Array.prototype.sort(cmp)\<close> is stable: an element is placed before the first
  element it does not compare greater than.
\<close>

fun insert_by :: "('a \<Rightarrow> 'a \<Rightarrow> int) \<Rightarrow> 'a \<Rightarrow> 'a list \<Rightarrow> 'a list" where
  "insert_by cmp x [] = [x]"
| "insert_by cmp x (y # ys) = (if cmp x y \<le> 0 then x # y # ys else y # insert_by cmp x ys)"

definition Array_sort :: "('a \<Rightarrow> 'a \<Rightarrow> int) \<Rightarrow> 'a list \<Rightarrow> 'a list" where
  "Array_sort cmp xs = foldr (insert_by cmp) xs []"

text \<open>\<open>Array.prototype.reduce\<close> without an initial value; on an empty array it
  throws a TypeError (\<open>None\<close>).\<close>

fun Array_reduce :: "('a \<Rightarrow> 'a \<Rightarrow> 'a) \<Rightarrow> 'a list \<Rightarrow> 'a option" where
  "Array_reduce f [] = None"
| "Array_reduce f (x # xs) = Some (foldl f x xs)"

text \<open>\<open>Array.prototype.slice(start)\<close>: a negative start counts from the end.\<close>

definition Array_slice :: "'a list \<Rightarrow> int \<Rightarrow> 'a list" where
  "Array_slice xs start =
     (let n = int (length xs);
          k = (if start < 0 then max (n + start) 0 else min start n)
      in drop (nat k) xs)"

section \<open>Dispatcher (lib/elevatorDispatch.ts)\<close>

definition canPickupWithoutDirectionChange :: "Elevator \<Rightarrow> FloorCall \<Rightarrow> bool" where
  "canPickupWithoutDirectionChange elevator call =
     (if direction elevator = IDLE then True
      else if direction elevator = as_state (call_direction call) then
        (if as_state (call_direction call) = MOVING_UP
         then currentFloor elevator \<le> call_floor call
         else currentFloor elevator \<ge> call_floor call)
      else False)"

definition calculateElevatorScore :: "Elevator \<Rightarrow> FloorCall \<Rightarrow> int" where
  "calculateElevatorScore elevator call =
     (let score0 = 0;
          distance = \<bar>currentFloor elevator - call_floor call\<bar>;
          score1 = score0 + max 0 (100 - distance * 10);
          score2 = (if direction elevator = as_state (call_direction call)
                    then score1 + 50 else score1);
          score3 = (if direction elevator = IDLE then score2 + 25 else score2);
          score4 = (if canPickupWithoutDirectionChange elevator call
                    then score3 + 75 else score3);
          score5 = score4 - int (Set_size (destinationFloors elevator)) * 5
      in score5)"

definition findBestElevator :: "Elevator list \<Rightarrow> FloorCall \<Rightarrow> Elevator option" where
  "findBestElevator elevators call =
     (let availableElevators = filter (\<lambda>elevator. \<not> isMoving elevator \<and> \<not> isLoading elevator) elevators
      in if length availableElevators = 0 then None
         else
           let scoredElevators = map (\<lambda>elevator. (elevator, calculateElevatorScore elevator call))
                                     availableElevators;
               sortedElevators = Array_sort (\<lambda>a b. snd b - snd a) scoredElevators
           in (case sortedElevators of [] \<Rightarrow> None | best # _ \<Rightarrow> Some (fst best)))"

definition isCallCompatibleWithDirection :: "FloorCall \<Rightarrow> ElevatorDirection \<Rightarrow> bool" where
  "isCallCompatibleWithDirection call elevatorDirection =
     (elevatorDirection = IDLE \<or> as_state (call_direction call) = elevatorDirection)"

definition shouldElevatorStop :: "Elevator \<Rightarrow> int \<Rightarrow> FloorCall list \<Rightarrow> bool" where
  "shouldElevatorStop elevator floor_no pendingCalls =
     (if Set_has (destinationFloors elevator) floor_no then True
      else list_ex (\<lambda>call. call_floor call = floor_no
                          \<and> assignedElevator call = Some (elevator_id elevator)
                          \<and> isCallCompatibleWithDirection call (direction elevator))
                   pendingCalls)"

definition closer :: "int \<Rightarrow> int \<Rightarrow> int \<Rightarrow> int" where
  "closer current closest floor_no =
     (if \<bar>floor_no - current\<bar> < \<bar>closest - current\<bar> then floor_no else closest)"

definition getNextDestination :: "Elevator \<Rightarrow> FloorCall list \<Rightarrow> int option" where
  "getNextDestination elevator pendingCalls =
     (let assignedCalls = filter (\<lambda>call. assignedElevator call = Some (elevator_id elevator)) pendingCalls;
          allDestinations = new_Set (destinationFloors elevator @ map call_floor assignedCalls)
      in if Set_size allDestinations = 0 then None
         else
           let destinations = Array_sort (\<lambda>a b. a - b) allDestinations;
               upDestinations = filter (\<lambda>f. f > currentFloor elevator) destinations;
               downDestinations = filter (\<lambda>f. f < currentFloor elevator) destinations
           in if direction elevator = IDLE
              then Array_reduce (closer (currentFloor elevator)) destinations
              else if direction elevator = MOVING_UP \<and> length upDestinations > 0
              then Some (hd upDestinations)
              else if direction elevator = MOVING_DOWN \<and> length downDestinations > 0
              then Some (last downDestinations)
              else Array_reduce (closer (currentFloor elevator)) destinations)"

section \<open>The runtime environment\<close>

text \<open>
  \<open>Date.now()\<close> and \<open>Math.random()\<close> read the outside world: the values they will
  return are two streams, consumed one reading at a time. \<open>callIdCounter\<close> is the static
  counter of \<open>ElevatorFactory\<close>.
\<close>

record World =
  clock :: "int stream"
  random :: "real stream"
  callIdCounter :: nat

definition Date_now :: "'a World_scheme \<Rightarrow> int \<times> 'a World_scheme" where
  "Date_now w = (shd (clock w), w\<lparr>clock := stl (clock w)\<rparr>)"

definition Math_random :: "'a World_scheme \<Rightarrow> real \<times> 'a World_scheme" where
  "Math_random w = (shd (random w), w\<lparr>random := stl (random w)\<rparr>)"

text \<open>Decimal printing of an integer, as a template literal prints a number.\<close>

definition digit_char :: "nat \<Rightarrow> char" where
  "digit_char d = char_of (48 + d)"

fun show_nat :: "nat \<Rightarrow> string" where
  "show_nat n = (if n < 10 then [digit_char n] else show_nat (n div 10) @ [digit_char (n mod 10)])"

declare show_nat.simps [simp del]

definition show_int :: "int \<Rightarrow> string" where
  "show_int i = (if i < 0 then CHR ''-'' # show_nat (nat (- i)) else show_nat (nat i))"

section \<open>Factory (lib/elevatorFactory.ts)\<close>

datatype error = Error string

text \<open>The template \<open>call-${++this.callIdCounter}-${Date.now()}\<close> of both call
  constructors.\<close>

definition call_id_text :: "nat \<Rightarrow> int \<Rightarrow> string" where
  "call_id_text counter now = ''call-'' @ show_nat counter @ ''-'' @ show_int now"

definition generateRandomCall :: "'a World_scheme \<Rightarrow> FloorCall \<times> 'a World_scheme" where
  "generateRandomCall w =
     (let (r1, w1) = Math_random w;
          floor_no = \<lfloor>r1 * real_of_int FLOORS\<rfloor> + 1;
          (r2, w2) = Math_random w1;
          dir0 = (if r2 > 0.5 then UP else DOWN);
          dir1 = (if floor_no = 1 then UP else dir0);
          dir2 = (if floor_no = FLOORS then DOWN else dir1);
          w3 = w2\<lparr>callIdCounter := callIdCounter w2 + 1\<rparr>;
          (t1, w4) = Date_now w3;
          (t2, w5) = Date_now w4
      in (\<lparr>call_id = call_id_text (callIdCounter w3) t1,
           call_floor = floor_no,
           call_direction = dir2,
           call_timestamp = t2,
           assignedElevator = None\<rparr>, w5))"

definition createFloorCall ::
  "int \<Rightarrow> CallDirection \<Rightarrow> 'a World_scheme \<Rightarrow> error + (FloorCall \<times> 'a World_scheme)" where
  "createFloorCall floor_no dir w =
     (if floor_no < 1 \<or> floor_no > FLOORS then
        Inl (Error (''Invalid floor: '' @ show_int floor_no @ ''. Must be between 1 and ''
                    @ show_int FLOORS))
      else if floor_no = 1 \<and> dir = DOWN then
        Inl (Error ''Cannot go down from ground floor'')
      else if floor_no = FLOORS \<and> dir = UP then
        Inl (Error ''Cannot go up from top floor'')
      else
        let w1 = w\<lparr>callIdCounter := callIdCounter w + 1\<rparr>;
            (t1, w2) = Date_now w1;
            (t2, w3) = Date_now w2
        in Inr (\<lparr>call_id = call_id_text (callIdCounter w1) t1,
                  call_floor = floor_no,
                  call_direction = dir,
                  call_timestamp = t2,
                  assignedElevator = None\<rparr>, w3))"

definition createLogEntry ::
  "LogType \<Rightarrow> string \<Rightarrow> int option \<Rightarrow> int option \<Rightarrow> 'a World_scheme
     \<Rightarrow> LogEntry \<times> 'a World_scheme" where
  "createLogEntry type message elevatorId floor_no w =
     (let (t1, w1) = Date_now w;
          (r, w2) = Math_random w1;
          (t2, w3) = Date_now w2
      in (\<lparr>log_id = (t1, r),
           log_timestamp = t2,
           log_type = type,
           log_message = message,
           log_elevatorId = elevatorId,
           log_floor = floor_no\<rparr>, w3))"

text \<open>The \<open>do ... while\<close> loop of one slot: it returns the last floor drawn and the
  number of attempts made.\<close>

function do_while ::
  "int \<Rightarrow> number_set \<Rightarrow> nat \<Rightarrow> 'a World_scheme \<Rightarrow> int \<times> nat \<times> 'a World_scheme" where
  "do_while current destinations attempts w =
     (let destination = \<lfloor>fst (Math_random w) * real_of_int FLOORS\<rfloor> + 1;
          w' = snd (Math_random w);
          attempts' = attempts + 1
      in if (destination = current \<or> Set_has destinations destination) \<and> attempts' < 10
         then do_while current destinations attempts' w'
         else (destination, attempts', w'))"
  by pat_completeness auto
termination
  by (relation "measure (\<lambda>(c, d, attempts, w). 10 - attempts)") auto

declare do_while.simps [simp del]

text \<open>The \<open>for\<close> loop over the slots, with the number of iterations left.\<close>

fun for_slots ::
  "nat \<Rightarrow> int \<Rightarrow> number_set \<Rightarrow> 'a World_scheme \<Rightarrow> number_set \<times> 'a World_scheme" where
  "for_slots 0 current destinations w = (destinations, w)"
| "for_slots (Suc n) current destinations w =
     (case do_while current destinations 0 w of
        (destination, attempts, w') \<Rightarrow>
          for_slots n current
            (if attempts < 10 then Set_add destinations destination else destinations) w')"

definition generatePassengerDestinations ::
  "int \<Rightarrow> int \<Rightarrow> 'a World_scheme \<Rightarrow> number_set \<times> 'a World_scheme" where
  "generatePassengerDestinations current maxDestinations w =
     (let (r, w1) = Math_random w;
          numDestinations = \<lfloor>r * real_of_int maxDestinations\<rfloor> + 1
      in for_slots (nat numDestinations) current [] w1)"

section \<open>Control service (services/ElevatorControlService.ts)\<close>

text \<open>
  The service owns the \<open>ElevatorSystemState\<close>; its methods mutate it in place, so each
  method is a function from the service to the service. An elevator object is named by
  its position in \<open>elevators\<close>, which no method changes. A pending \<open>setTimeout\<close> is
  recorded with its delay and what it will complete. The two observer callbacks
  (\<open>logCallback\<close>, \<open>stateChangeCallback\<close>) and the console output do not write the
  state and are left out; no modelled operation throws, so the \<open>catch\<close> blocks are
  never entered.
\<close>

datatype Timer = LoadingTimer nat int | MovementTimer nat int

record Service = World +
  elevators :: "Elevator list"
  pendingCalls :: "FloorCall list"
  logs :: "LogEntry list"
  isSimulationRunning :: bool
  systemStartTime :: int
  totalCallsProcessed :: nat
  timers :: "(int \<times> Timer) list"

definition call_direction_str :: "FloorCall \<Rightarrow> string" where
  "call_direction_str call = direction_str (as_state (call_direction call))"

definition addLog ::
  "LogType \<Rightarrow> string \<Rightarrow> int option \<Rightarrow> int option \<Rightarrow> Service \<Rightarrow> Service" where
  "addLog type message elevatorId floor_no s =
     (let (logEntry, s1) = createLogEntry type message elevatorId floor_no s;
          s2 = (if length (logs s1) \<ge> MAX_LOG_ENTRIES
                then s1\<lparr>logs := Array_slice (logs s1) (- int MAX_LOG_ENTRIES + 1)\<rparr>
                else s1)
      in s2\<lparr>logs := logs s2 @ [logEntry]\<rparr>)"

definition addFloorCall :: "FloorCall \<Rightarrow> Service \<Rightarrow> Service" where
  "addFloorCall call s =
     (case findBestElevator (elevators s) call of
        None \<Rightarrow>
          let s1 = addLog SYSTEM
                     (''No available elevator for call on floor '' @ show_int (call_floor call)
                      @ '' going '' @ call_direction_str call @ ''. Call queued.'')
                     None None s
          in s1\<lparr>pendingCalls := pendingCalls s1 @ [call]\<rparr>
      | Some bestElevator \<Rightarrow>
          let assignedCall = call\<lparr>assignedElevator := Some (elevator_id bestElevator)\<rparr>;
              s1 = s\<lparr>pendingCalls := pendingCalls s @ [assignedCall]\<rparr>
          in addLog CALL
               (''Floor '' @ show_int (call_floor call) @ '' '' @ call_direction_str call
                @ '' call assigned to Elevator '' @ show_int (elevator_id bestElevator))
               (Some (elevator_id bestElevator)) (Some (call_floor call)) s1)"

definition update_elevator :: "nat \<Rightarrow> (Elevator \<Rightarrow> Elevator) \<Rightarrow> Service \<Rightarrow> Service" where
  "update_elevator i f s = s\<lparr>elevators := (elevators s)[i := f (elevators s ! i)]\<rparr>"

definition setTimeout :: "Timer \<Rightarrow> int \<Rightarrow> Service \<Rightarrow> Service" where
  "setTimeout t delay s = s\<lparr>timers := timers s @ [(delay, t)]\<rparr>"

definition handlePassengerDropoff :: "nat \<Rightarrow> int \<Rightarrow> Service \<Rightarrow> Service" where
  "handlePassengerDropoff i floor_no s =
     (let s1 = update_elevator i
                 (\<lambda>e. e\<lparr>destinationFloors := Set_delete (destinationFloors e) floor_no\<rparr>) s;
          s2 = update_elevator i
                 (\<lambda>e. e\<lparr>passengers := Set_size (destinationFloors e)\<rparr>) s1;
          (now, s3) = Date_now s2;
          s4 = update_elevator i (\<lambda>e. e\<lparr>lastActivity := now\<rparr>) s3;
          ident = elevator_id (elevators s4 ! i);
          s5 = addLog DROPOFF
                 (''Elevator '' @ show_int ident @ '' passengers disembarked at floor ''
                  @ show_int floor_no)
                 (Some ident) (Some floor_no) s4
      in if Set_size (destinationFloors (elevators s5 ! i)) = 0
         then addLog SYSTEM
                (''Elevator '' @ show_int ident @ '' is now idle at floor '' @ show_int floor_no)
                (Some ident) (Some floor_no)
                (update_elevator i (\<lambda>e. e\<lparr>direction := IDLE\<rparr>) s5)
         else s5)"

definition handlePassengerPickup :: "nat \<Rightarrow> int \<Rightarrow> FloorCall \<Rightarrow> Service \<Rightarrow> Service" where
  "handlePassengerPickup i floor_no call s =
     (let s1 = update_elevator i (\<lambda>e. e\<lparr>isLoading := True\<rparr>) s;
          (now, s2) = Date_now s1;
          s3 = update_elevator i (\<lambda>e. e\<lparr>lastActivity := now\<rparr>) s2;
          ident = elevator_id (elevators s3 ! i);
          s4 = addLog PICKUP
                 (''Elevator '' @ show_int ident @ '' loading passengers at floor ''
                  @ show_int floor_no)
                 (Some ident) (Some floor_no) s3;
          s5 = s4\<lparr>pendingCalls := filter (\<lambda>c. call_id c \<noteq> call_id call) (pendingCalls s4)\<rparr>;
          s6 = s5\<lparr>totalCallsProcessed := totalCallsProcessed s5 + 1\<rparr>
      in setTimeout (LoadingTimer i floor_no) LOADING_DURATION_MS s6)"

definition handleElevatorAtFloor :: "nat \<Rightarrow> Service \<Rightarrow> Service" where
  "handleElevatorAtFloor i s =
     (let current = currentFloor (elevators s ! i)
      in if \<not> shouldElevatorStop (elevators s ! i) current (pendingCalls s) then s
         else
           let s1 = (if Set_has (destinationFloors (elevators s ! i)) current
                     then handlePassengerDropoff i current s else s);
               pickupCall = find (\<lambda>call. call_floor call = current
                                      \<and> assignedElevator call = Some (elevator_id (elevators s1 ! i)))
                                 (pendingCalls s1)
           in (case pickupCall of
                 None \<Rightarrow> s1
               | Some call \<Rightarrow> handlePassengerPickup i current call s1))"

definition moveElevator :: "nat \<Rightarrow> int \<Rightarrow> Service \<Rightarrow> Service" where
  "moveElevator i targetFloor s =
     (let dir = (if targetFloor > currentFloor (elevators s ! i) then MOVING_UP else MOVING_DOWN);
          s1 = update_elevator i (\<lambda>e. e\<lparr>isMoving := True\<rparr>) s;
          s2 = update_elevator i (\<lambda>e. e\<lparr>direction := dir\<rparr>) s1;
          (now, s3) = Date_now s2;
          s4 = update_elevator i (\<lambda>e. e\<lparr>lastActivity := now\<rparr>) s3;
          e = elevators s4 ! i;
          s5 = addLog MOVEMENT
                 (''Elevator '' @ show_int (elevator_id e) @ '' moving '' @ direction_str dir
                  @ '' from floor '' @ show_int (currentFloor e) @ '' to floor ''
                  @ show_int targetFloor)
                 (Some (elevator_id e)) None s4
      in setTimeout (MovementTimer i targetFloor) MOVE_DURATION_MS s5)"

text \<open>\<open>!nextDestination\<close> holds for \<open>null\<close> and for the number \<open>0\<close>.\<close>

definition moveElevatorToNextDestination :: "nat \<Rightarrow> Service \<Rightarrow> Service" where
  "moveElevatorToNextDestination i s =
     (let e = elevators s ! i;
          nextDestination = getNextDestination e (pendingCalls s)
      in case nextDestination of
           None \<Rightarrow>
             (if direction e \<noteq> IDLE
              then addLog SYSTEM
                     (''Elevator '' @ show_int (elevator_id e) @ '' is now idle at floor ''
                      @ show_int (currentFloor e))
                     (Some (elevator_id e)) (Some (currentFloor e))
                     (update_elevator i (\<lambda>e. e\<lparr>direction := IDLE\<rparr>) s)
              else s)
         | Some target \<Rightarrow>
             if target = 0 \<or> target = currentFloor e then
               (if direction e \<noteq> IDLE
                then addLog SYSTEM
                       (''Elevator '' @ show_int (elevator_id e) @ '' is now idle at floor ''
                        @ show_int (currentFloor e))
                       (Some (elevator_id e)) (Some (currentFloor e))
                       (update_elevator i (\<lambda>e. e\<lparr>direction := IDLE\<rparr>) s)
                else s)
             else moveElevator i target s)"

fun Array_findIndex :: "('a \<Rightarrow> bool) \<Rightarrow> 'a list \<Rightarrow> nat option" where
  "Array_findIndex p [] = None"
| "Array_findIndex p (x # xs) =
     (if p x then Some 0 else map_option Suc (Array_findIndex p xs))"

text \<open>\<open>!call.assignedElevator\<close> holds for a missing assignment and for the number \<open>0\<close>.\<close>

definition reassign_one :: "FloorCall \<Rightarrow> Service \<Rightarrow> Service" where
  "reassign_one call s =
     (case findBestElevator (elevators s) call of
        None \<Rightarrow> s
      | Some bestElevator \<Rightarrow>
          (case Array_findIndex (\<lambda>c. call_id c = call_id call) (pendingCalls s) of
             None \<Rightarrow> s
           | Some callIndex \<Rightarrow>
               addLog SYSTEM
                 (''Reassigned floor '' @ show_int (call_floor call) @ '' ''
                  @ call_direction_str call @ '' call to Elevator ''
                  @ show_int (elevator_id bestElevator))
                 (Some (elevator_id bestElevator)) (Some (call_floor call))
                 (s\<lparr>pendingCalls := (pendingCalls s)
                       [callIndex := call\<lparr>assignedElevator := Some (elevator_id bestElevator)\<rparr>]\<rparr>)))"

definition reassignUnassignedCalls :: "Service \<Rightarrow> Service" where
  "reassignUnassignedCalls s =
     (let unassignedCalls = filter (\<lambda>call. assignedElevator call = None
                                         \<or> assignedElevator call = Some 0) (pendingCalls s)
      in fold reassign_one unassignedCalls s)"

definition process_elevator :: "nat \<Rightarrow> Service \<Rightarrow> Service" where
  "process_elevator i s =
     (if isMoving (elevators s ! i) \<or> isLoading (elevators s ! i) then s
      else moveElevatorToNextDestination i (handleElevatorAtFloor i s))"

definition processElevatorLogic :: "Service \<Rightarrow> Service" where
  "processElevatorLogic s =
     reassignUnassignedCalls (fold process_elevator [0..<length (elevators s)] s)"

section \<open>Vocabulary of the properties\<close>

text \<open>The floors a car has to visit: its destinations and the floors of the pending
  calls assigned to it.\<close>

abbreviation stops :: "Elevator \<Rightarrow> FloorCall list \<Rightarrow> int set" where
  "stops car calls \<equiv>
     set (destinationFloors car)
       \<union> call_floor ` {c \<in> set calls. assignedElevator c = Some (elevator_id car)}"

text \<open>\<open>x\<close> is an element of \<open>D\<close> nearest to \<open>cur\<close>, the lowest one of the nearest.\<close>

abbreviation nearest :: "int set \<Rightarrow> int \<Rightarrow> int \<Rightarrow> bool" where
  "nearest D cur x \<equiv>
     x \<in> D \<and> (\<forall>y\<in>D. \<bar>x - cur\<bar> \<le> \<bar>y - cur\<bar>) \<and> (\<forall>y\<in>D. \<bar>y - cur\<bar> = \<bar>x - cur\<bar> \<longrightarrow> x \<le> y)"

section \<open>Example data\<close>

definition car_at :: "int \<Rightarrow> int \<Rightarrow> ElevatorDirection \<Rightarrow> int list \<Rightarrow> Elevator" where
  "car_at ident fl dir dests =
     \<lparr>elevator_id = ident, currentFloor = fl, direction = dir, isMoving = False,
      isLoading = False, destinationFloors = dests, passengers = length dests,
      lastActivity = 0\<rparr>"

definition call_at :: "string \<Rightarrow> int \<Rightarrow> CallDirection \<Rightarrow> int option \<Rightarrow> FloorCall" where
  "call_at ident fl dir assigned =
     \<lparr>call_id = ident, call_floor = fl, call_direction = dir, call_timestamp = 0,
      assignedElevator = assigned\<rparr>"

definition fleet_ex :: "Elevator list" where
  "fleet_ex = [(car_at 1 1 IDLE [])\<lparr>isMoving := True\<rparr>, car_at 2 4 IDLE [],
               car_at 3 6 IDLE [], car_at 4 8 MOVING_UP [9]]"

text \<open>A world whose clock always reads 1000 and whose draws are all one half.\<close>

definition world_ex :: World where
  "world_ex = \<lparr>clock = sconst 1000, random = sconst (1 / 2), callIdCounter = 0\<rparr>"

text \<open>Boarding at floor 5: one draw of 0 (one slot), nine draws of 0.45 (floor 5, the
  boarding floor), then draws of 0.65 (floor 7).\<close>

definition world_retry :: World where
  "world_retry = \<lparr>clock = sconst 1000,
                   random = 0 ## ([45 / 100, 45 / 100, 45 / 100, 45 / 100, 45 / 100, 45 / 100,
                                   45 / 100, 45 / 100, 45 / 100] @- sconst (65 / 100)),
                   callIdCounter = 0\<rparr>"

text \<open>Car 1 stands at floor 5 with floor 5 as its only destination; two pending calls
  at floor 5 are assigned to it.\<close>

definition service_ex :: Service where
  "service_ex =
     \<lparr>clock = sconst 1000, random = sconst (1 / 2), callIdCounter = 3,
      elevators = [car_at 1 5 MOVING_UP [5], car_at 2 3 IDLE []],
      pendingCalls = [call_at ''call-1-1000'' 5 UP (Some 1),
                      call_at ''call-2-1000'' 5 DOWN (Some 1),
                      call_at ''call-3-1000'' 3 UP (Some 2)],
      logs = [],
      isSimulationRunning = True,
      systemStartTime = 0,
      totalCallsProcessed = 0,
      timers = []\<rparr>"

text \<open>Every car idle at the ground floor and nothing pending.\<close>

definition service_idle :: Service where
  "service_idle =
     \<lparr>clock = sconst 1000, random = sconst (1 / 2), callIdCounter = 0,
      elevators = [car_at 1 1 IDLE [], car_at 2 1 IDLE []],
      pendingCalls = [],
      logs = [],
      isSimulationRunning = False,
      systemStartTime = 0,
      totalCallsProcessed = 0,
      timers = []\<rparr>"

text \<open>What a caller passes to \<open>addLog\<close>, and a run of such calls.\<close>

type_synonym log_args = "LogType \<times> string \<times> int option \<times> int option"

definition log_content :: "LogEntry \<Rightarrow> log_args" where
  "log_content e = (log_type e, log_message e, log_elevatorId e, log_floor e)"

definition addLogs :: "log_args list \<Rightarrow> Service \<Rightarrow> Service" where
  "addLogs args s = fold (\<lambda>(type, message, elevatorId, floor_no). addLog type message elevatorId floor_no) args s"

text \<open>Repeated ticks.\<close>

definition ticks :: "nat \<Rightarrow> Service \<Rightarrow> Service" where
  "ticks n s = (processElevatorLogic ^^ n) s"

text \<open>Reading a decimal numeral back.\<close>

definition read_nat :: "string \<Rightarrow> nat" where
  "read_nat cs = foldl (\<lambda>a c. 10 * a + (of_char c - 48)) 0 cs"

text \<open>A service whose log is full.\<close>

definition entry_ex :: LogEntry where
  "entry_ex = \<lparr>log_id = (1000, 1 / 2), log_timestamp = 1000, log_type = SYSTEM,
               log_message = ''Elevator control system initialized'',
               log_elevatorId = None, log_floor = None\<rparr>"

definition service_full :: Service where
  "service_full = service_idle\<lparr>logs := replicate 100 entry_ex\<rparr>"

text \<open>One idle car at floor 5 and an empty queue; then the same up call at floor 5
  passed to \<open>addFloorCall\<close> twice.\<close>

definition service_one :: Service where
  "service_one =
     \<lparr>clock = sconst 1000, random = sconst (1 / 2), callIdCounter = 1,
      elevators = [car_at 1 5 IDLE []],
      pendingCalls = [],
      logs = [],
      isSimulationRunning = False,
      systemStartTime = 0,
      totalCallsProcessed = 0,
      timers = []\<rparr>"

definition service_dup :: Service where
  "service_dup =
     addFloorCall (call_at ''call-1-1000'' 5 UP None)
       (addFloorCall (call_at ''call-1-1000'' 5 UP None) service_one)"


section \<open>Sets and arrays\<close>

lemma set_fold_Set_add: "set (fold (\<lambda>x s. Set_add s x) xs acc) = set acc \<union> set xs"
  by (induction xs arbitrary: acc) (auto simp: Set_add_def)

lemma distinct_fold_Set_add: "distinct acc \<Longrightarrow> distinct (fold (\<lambda>x s. Set_add s x) xs acc)"
  by (induction xs arbitrary: acc) (auto simp: Set_add_def)

lemma set_new_Set: "set (new_Set xs) = set xs"
  by (simp add: new_Set_def set_fold_Set_add)

lemma distinct_new_Set: "distinct (new_Set xs)"
  by (simp add: new_Set_def distinct_fold_Set_add)

lemma insert_by_asc: "insert_by (\<lambda>a b. a - b) (x::int) ys = insort x ys"
  by (induction ys) auto

lemma Array_sort_asc: "Array_sort (\<lambda>a b. a - b) (xs::int list) = sort xs"
  by (induction xs) (auto simp: Array_sort_def insert_by_asc)

lemma Array_sort_Nil: "Array_sort cmp [] = []"
  by (simp add: Array_sort_def)

lemma Array_sort_Cons: "Array_sort cmp (x # xs) = insert_by cmp x (Array_sort cmp xs)"
  by (simp add: Array_sort_def)

lemma length_insert_by: "length (insert_by cmp x ys) = Suc (length ys)"
  by (induction ys) auto

lemma length_Array_sort: "length (Array_sort cmp xs) = length xs"
  by (induction xs) (auto simp: Array_sort_Nil Array_sort_Cons length_insert_by)

lemma Array_sort_eq_Nil: "Array_sort cmp xs = [] \<longleftrightarrow> xs = []"
  using length_Array_sort [of cmp xs] by (metis length_0_conv)

lemma hd_insert_by:
  "hd (insert_by cmp x ys) = (if ys = [] \<or> cmp x (hd ys) \<le> 0 then x else hd ys)"
  by (cases ys) auto

lemma find_filter: "find P (filter Q xs) = find (\<lambda>x. Q x \<and> P x) xs"
  by (induction xs) auto

lemma find_map: "find P (map g xs) = map_option g (find (\<lambda>x. P (g x)) xs)"
  by (induction xs) auto

lemma hd_sort_desc_find:
  fixes k :: "'a \<Rightarrow> int"
  assumes "xs \<noteq> []"
  shows "find (\<lambda>x. \<forall>y\<in>set xs. k y \<le> k x) xs = Some (hd (Array_sort (\<lambda>a b. k b - k a) xs))"
  using assms
proof (induction xs)
  case Nil
  then show ?case by simp
next
  case (Cons x xs)
  show ?case
  proof (cases "xs = []")
    case True
    then show ?thesis by (simp add: Array_sort_Cons Array_sort_Nil)
  next
    case False
    define h where "h = hd (Array_sort (\<lambda>a b. k b - k a) xs)"
    have IH: "find (\<lambda>x. \<forall>y\<in>set xs. k y \<le> k x) xs = Some h"
      using Cons.IH False by (simp add: h_def)
    then have hin: "h \<in> set xs" and hmax: "\<forall>y\<in>set xs. k y \<le> k h"
      by (auto simp: find_Some_iff)
    have hd_eq: "hd (Array_sort (\<lambda>a b. k b - k a) (x # xs)) = (if k h \<le> k x then x else h)"
      using False by (simp add: Array_sort_Cons hd_insert_by Array_sort_eq_Nil h_def)
    show ?thesis
    proof (cases "k h \<le> k x")
      case True
      then have "\<forall>y\<in>set (x # xs). k y \<le> k x" using hmax by auto
      then show ?thesis using True hd_eq by simp
    next
      case lt: False
      then have notx: "\<not> (\<forall>y\<in>set (x # xs). k y \<le> k x)" using hin by auto
      have "find (\<lambda>e. \<forall>y\<in>set (x # xs). k y \<le> k e) xs = find (\<lambda>e. \<forall>y\<in>set xs. k y \<le> k e) xs"
        by (rule find_cong) (use lt hin in force)+
      moreover have "find (\<lambda>e. \<forall>y\<in>set (x # xs). k y \<le> k e) (x # xs)
                       = find (\<lambda>e. \<forall>y\<in>set (x # xs). k y \<le> k e) xs"
        using notx by (simp only: find.simps if_False)
      moreover have "hd (Array_sort (\<lambda>a b. k b - k a) (x # xs)) = h"
        using lt hd_eq by simp
      ultimately show ?thesis using IH by simp
    qed
  qed
qed

lemma foldl_closer_nearest:
  "sorted (d # ds) \<Longrightarrow> nearest (set (d # ds)) cur (foldl (closer cur) d ds)"
proof (induction ds rule: rev_induct)
  case Nil
  then show ?case by simp
next
  case (snoc x xs)
  define r where "r = foldl (closer cur) d xs"
  have srt: "sorted (d # xs)" and le: "\<forall>y\<in>set (d # xs). y \<le> x"
    using snoc.prems by (auto simp: sorted_append)
  have IH: "nearest (set (d # xs)) cur r"
    using snoc.IH srt by (simp add: r_def)
  have step: "foldl (closer cur) d (xs @ [x]) = closer cur r x"
    by (simp add: r_def)
  show ?case
  proof (cases "\<bar>x - cur\<bar> < \<bar>r - cur\<bar>")
    case True
    then have "closer cur r x = x" by (simp add: closer_def)
    moreover have "nearest (set (d # xs @ [x])) cur x"
      using True IH by fastforce
    ultimately show ?thesis using step by simp
  next
    case False
    then have "closer cur r x = r" by (simp add: closer_def)
    moreover have "nearest (set (d # xs @ [x])) cur r"
      using False IH le by fastforce
    ultimately show ?thesis using step by simp
  qed
qed

lemma Array_reduce_nearest:
  assumes "sorted xs" "xs \<noteq> []"
  shows "\<exists>x. Array_reduce (closer cur) xs = Some x \<and> nearest (set xs) cur x"
proof -
  obtain d ds where xs: "xs = d # ds" using assms(2) by (cases xs) auto
  show ?thesis using foldl_closer_nearest [of d ds cur] assms(1) unfolding xs by simp
qed

lemma hd_sorted_Min: "sorted xs \<Longrightarrow> xs \<noteq> [] \<Longrightarrow> hd xs = Min (set xs)"
  by (cases xs) (auto intro!: Min_eqI [symmetric])

lemma last_sorted_Max: "sorted xs \<Longrightarrow> xs \<noteq> [] \<Longrightarrow> last xs = Max (set xs)"
  by (induction xs rule: rev_induct) (auto simp: sorted_append intro!: Max_eqI [symmetric])


section \<open>Choosing the next destination\<close>

lemma getNextDestination_unfold:
  "getNextDestination car calls =
     (let destinations = sorted_list_of_set (stops car calls);
          cur = currentFloor car
      in if destinations = [] then None
         else if direction car = IDLE then Array_reduce (closer cur) destinations
         else if direction car = MOVING_UP \<and> filter (\<lambda>f. f > cur) destinations \<noteq> []
         then Some (hd (filter (\<lambda>f. f > cur) destinations))
         else if direction car = MOVING_DOWN \<and> filter (\<lambda>f. f < cur) destinations \<noteq> []
         then Some (last (filter (\<lambda>f. f < cur) destinations))
         else Array_reduce (closer cur) destinations)"
proof -
  define all where
    "all = new_Set (destinationFloors car
              @ map call_floor (filter (\<lambda>call. assignedElevator call = Some (elevator_id car)) calls))"
  define ds where "ds = sorted_list_of_set (stops car calls)"
  have s: "set all = stops car calls" by (auto simp: all_def set_new_Set)
  have d: "distinct all" by (simp add: all_def distinct_new_Set)
  have "sort all = sorted_list_of_set (set all)"
    using d by (simp add: sorted_list_of_set_sort_remdups distinct_remdups_id)
  then have e: "Array_sort (\<lambda>a b. a - b) all = ds"
    by (simp add: Array_sort_asc s ds_def)
  have "length ds = length all"
    using e length_sort [of "\<lambda>x. x" all] by (simp add: Array_sort_asc)
  then have z: "(Set_size all = 0) = (ds = [])"
    unfolding Set_size_def by (metis length_0_conv)
  have "getNextDestination car calls =
     (if ds = [] then None
         else if direction car = IDLE then Array_reduce (closer (currentFloor car)) ds
         else if direction car = MOVING_UP \<and> filter (\<lambda>f. f > currentFloor car) ds \<noteq> []
         then Some (hd (filter (\<lambda>f. f > currentFloor car) ds))
         else if direction car = MOVING_DOWN \<and> filter (\<lambda>f. f < currentFloor car) ds \<noteq> []
         then Some (last (filter (\<lambda>f. f < currentFloor car) ds))
         else Array_reduce (closer (currentFloor car)) ds)"
    unfolding getNextDestination_def all_def [symmetric] Let_def e z
    by (simp only: length_greater_0_conv)
  then show ?thesis
    unfolding ds_def Let_def .
qed



text \<open>
  C1. With \<open>D\<close> the car's destinations together with the floors of the pending calls
  assigned to it, \<open>getNextDestination\<close> returns nothing exactly when \<open>D\<close> is empty. An
  idle car gets the element of \<open>D\<close> nearest to its floor, the lower one on a tie. A car
  moving up gets the smallest element of \<open>D\<close> above its floor when there is one, a car
  moving down the largest element below its floor when there is one; when there is none
  in the direction of travel, the nearest element of \<open>D\<close> with the same tie-break.
\<close>

theorem getNextDestination_spec:
  "(getNextDestination car calls = None \<longleftrightarrow> stops car calls = {}) \<and>
   (stops car calls \<noteq> {} \<longrightarrow>
      (direction car = IDLE \<longrightarrow>
         (\<exists>x. getNextDestination car calls = Some x
              \<and> nearest (stops car calls) (currentFloor car) x)) \<and>
      (direction car = MOVING_UP \<longrightarrow>
         (if \<exists>y\<in>stops car calls. y > currentFloor car
          then getNextDestination car calls
                 = Some (Min {y \<in> stops car calls. y > currentFloor car})
          else \<exists>x. getNextDestination car calls = Some x
                   \<and> nearest (stops car calls) (currentFloor car) x)) \<and>
      (direction car = MOVING_DOWN \<longrightarrow>
         (if \<exists>y\<in>stops car calls. y < currentFloor car
          then getNextDestination car calls
                 = Some (Max {y \<in> stops car calls. y < currentFloor car})
          else \<exists>x. getNextDestination car calls = Some x
                   \<and> nearest (stops car calls) (currentFloor car) x)))"
proof -
  define D where "D = stops car calls"
  define ds where "ds = sorted_list_of_set D"
  define cur where "cur = currentFloor car"
  define r where "r = getNextDestination car calls"
  have fin: "finite D" by (simp add: D_def)
  have sds: "set ds = D" and srt: "sorted ds" using fin by (simp_all add: ds_def)
  have emp: "ds = [] \<longleftrightarrow> D = {}" using sds by auto
  have unf: "r =
     (if ds = [] then None
         else if direction car = IDLE then Array_reduce (closer cur) ds
         else if direction car = MOVING_UP \<and> filter (\<lambda>f. f > cur) ds \<noteq> []
         then Some (hd (filter (\<lambda>f. f > cur) ds))
         else if direction car = MOVING_DOWN \<and> filter (\<lambda>f. f < cur) ds \<noteq> []
         then Some (last (filter (\<lambda>f. f < cur) ds))
         else Array_reduce (closer cur) ds)"
    unfolding r_def ds_def D_def cur_def
    using getNextDestination_unfold [of car calls] by (simp only: Let_def)
  have near: "\<exists>x. Array_reduce (closer cur) ds = Some x \<and> nearest D cur x" if "D \<noteq> {}"
    using Array_reduce_nearest [OF srt, of cur] that emp sds by simp
  have up_ne: "filter (\<lambda>f. f > cur) ds \<noteq> [] \<longleftrightarrow> (\<exists>y\<in>D. y > cur)"
    using sds by (auto simp: filter_empty_conv)
  have dn_ne: "filter (\<lambda>f. f < cur) ds \<noteq> [] \<longleftrightarrow> (\<exists>y\<in>D. y < cur)"
    using sds by (auto simp: filter_empty_conv)
  have up_hd: "hd (filter (\<lambda>f. f > cur) ds) = Min {y \<in> D. y > cur}" if "\<exists>y\<in>D. y > cur"
  proof -
    have "hd (filter (\<lambda>f. f > cur) ds) = Min (set (filter (\<lambda>f. f > cur) ds))"
      using that up_ne srt by (intro hd_sorted_Min) (auto simp: sorted_wrt_filter)
    then show ?thesis using sds by simp
  qed
  have dn_last: "last (filter (\<lambda>f. f < cur) ds) = Max {y \<in> D. y < cur}" if "\<exists>y\<in>D. y < cur"
  proof -
    have "last (filter (\<lambda>f. f < cur) ds) = Max (set (filter (\<lambda>f. f < cur) ds))"
      using that dn_ne srt by (intro last_sorted_Max) (auto simp: sorted_wrt_filter)
    then show ?thesis using sds by simp
  qed
  have none: "r = None \<longleftrightarrow> D = {}"
  proof (cases "D = {}")
    case True
    then show ?thesis using unf emp by simp
  next
    case False
    then obtain x where "Array_reduce (closer cur) ds = Some x" using near by blast
    then show ?thesis using False unf emp by auto
  qed
  have idle: "\<exists>x. r = Some x \<and> nearest D cur x" if "D \<noteq> {}" "direction car = IDLE"
    using near [OF that(1)] that unf emp by simp
  have up: "if \<exists>y\<in>D. y > cur then r = Some (Min {y \<in> D. y > cur})
            else \<exists>x. r = Some x \<and> nearest D cur x"
    if "D \<noteq> {}" "direction car = MOVING_UP"
  proof (cases "\<exists>y\<in>D. y > cur")
    case True
    then show ?thesis using that unf emp up_ne up_hd [OF True] by simp
  next
    case False
    then have "r = Array_reduce (closer cur) ds" using that unf emp up_ne by simp
    then show ?thesis using False near [OF that(1)] by simp
  qed
  have down: "if \<exists>y\<in>D. y < cur then r = Some (Max {y \<in> D. y < cur})
            else \<exists>x. r = Some x \<and> nearest D cur x"
    if "D \<noteq> {}" "direction car = MOVING_DOWN"
  proof (cases "\<exists>y\<in>D. y < cur")
    case True
    then show ?thesis using that unf emp dn_ne dn_last [OF True] by simp
  next
    case False
    then have "r = Array_reduce (closer cur) ds" using that unf emp dn_ne by simp
    then show ?thesis using False near [OF that(1)] by simp
  qed
  show ?thesis
    using none idle up down unfolding D_def cur_def r_def by blast
qed


text \<open>A car moving up from floor 3 with destinations 2 and 5 and an assigned call at
  floor 7 continues to floor 5.\<close>

theorem getNextDestination_spec_witness:
  "stops (car_at 1 3 MOVING_UP [2, 5]) [call_at ''a'' 7 UP (Some 1), call_at ''b'' 1 UP (Some 2)] \<noteq> {}
   \<and> direction (car_at 1 3 MOVING_UP [2, 5]) = MOVING_UP
   \<and> (\<exists>y\<in>stops (car_at 1 3 MOVING_UP [2, 5]) [call_at ''a'' 7 UP (Some 1), call_at ''b'' 1 UP (Some 2)].
         y > currentFloor (car_at 1 3 MOVING_UP [2, 5]))
   \<and> getNextDestination (car_at 1 3 MOVING_UP [2, 5]) [call_at ''a'' 7 UP (Some 1), call_at ''b'' 1 UP (Some 2)]
       = Some (Min {y \<in> stops (car_at 1 3 MOVING_UP [2, 5]) [call_at ''a'' 7 UP (Some 1), call_at ''b'' 1 UP (Some 2)].
                     y > currentFloor (car_at 1 3 MOVING_UP [2, 5])})
   \<and> getNextDestination (car_at 1 3 MOVING_UP [2, 5]) [call_at ''a'' 7 UP (Some 1), call_at ''b'' 1 UP (Some 2)] = Some 5"
proof -
  let ?car = "car_at 1 3 MOVING_UP [2, 5]"
  let ?calls = "[call_at ''a'' 7 UP (Some 1), call_at ''b'' 1 UP (Some 2)]"
  have h1: "stops ?car ?calls \<noteq> {}" by (simp add: car_at_def)
  have h2: "direction ?car = MOVING_UP" by (simp add: car_at_def)
  have h3: "\<exists>y\<in>stops ?car ?calls. y > currentFloor ?car" by (simp add: car_at_def)
  have "getNextDestination ?car ?calls = Some (Min {y \<in> stops ?car ?calls. y > currentFloor ?car})"
    using getNextDestination_spec [of ?car ?calls] h1 h2 h3 by presburger
  moreover have "getNextDestination ?car ?calls = Some 5"
    by (simp add: getNextDestination_def car_at_def call_at_def new_Set_def Set_add_def
          Set_size_def Array_sort_def)
  ultimately show ?thesis using h1 h2 h3 by blast
qed

section \<open>Scoring and choosing a car\<close>

text \<open>
  C2. The score of a car for a call is the sum of \<open>max 0 (100 - 10 * distance)\<close>, 50 when
  the car's direction is the call's, 25 when the car is idle, 75 when the car can reach
  the call without reversing (it is idle, or it moves in the call's direction and is at
  or below the call's floor for an up call, at or above it for a down call), minus 5 for
  each of the car's destinations.
\<close>

theorem calculateElevatorScore_spec:
  assumes "distinct (destinationFloors car)"
  shows "calculateElevatorScore car call =
           max 0 (100 - 10 * \<bar>currentFloor car - call_floor call\<bar>)
           + (if direction car = as_state (call_direction call) then 50 else 0)
           + (if direction car = IDLE then 25 else 0)
           + (if direction car = IDLE
                 \<or> (direction car = as_state (call_direction call)
                    \<and> (case call_direction call of
                         UP \<Rightarrow> currentFloor car \<le> call_floor call
                       | DOWN \<Rightarrow> call_floor call \<le> currentFloor car))
              then 75 else 0)
           - 5 * int (card (set (destinationFloors car)))"
  using assms
  by (auto simp: calculateElevatorScore_def canPickupWithoutDirectionChange_def Set_size_def
        distinct_card mult.commute split: CallDirection.splits)

theorem calculateElevatorScore_spec_witness:
  "distinct (destinationFloors (car_at 4 8 MOVING_UP [9]))
   \<and> calculateElevatorScore (car_at 4 8 MOVING_UP [9]) (call_at ''c'' 5 UP None) = 115"
proof -
  have d: "distinct (destinationFloors (car_at 4 8 MOVING_UP [9]))"
    by (simp add: car_at_def)
  show ?thesis
    using d calculateElevatorScore_spec [OF d, of "call_at ''c'' 5 UP None"]
    by (simp add: car_at_def call_at_def)
qed

lemma findBest_find:
  "findBestElevator es c =
     find (\<lambda>e. (\<not> isMoving e \<and> \<not> isLoading e) \<and>
               (\<forall>e'\<in>set es. \<not> isMoving e' \<and> \<not> isLoading e'
                    \<longrightarrow> calculateElevatorScore e' c \<le> calculateElevatorScore e c)) es"
proof -
  define av where "av = filter (\<lambda>e. \<not> isMoving e \<and> \<not> isLoading e) es"
  define L where "L = map (\<lambda>e. (e, calculateElevatorScore e c)) av"
  show ?thesis
  proof (cases "av = []")
    case True
    then have "\<forall>e\<in>set es. \<not> (\<not> isMoving e \<and> \<not> isLoading e)"
      unfolding av_def by (simp add: filter_empty_conv)
    then have "find (\<lambda>e. (\<not> isMoving e \<and> \<not> isLoading e) \<and>
               (\<forall>e'\<in>set es. \<not> isMoving e' \<and> \<not> isLoading e'
                    \<longrightarrow> calculateElevatorScore e' c \<le> calculateElevatorScore e c)) es = None"
      unfolding find_None_iff by blast
    then show ?thesis using True by (simp add: findBestElevator_def av_def)
  next
    case False
    then have Lne: "L \<noteq> []" by (simp add: L_def)
    have "findBestElevator es c = Some (fst (hd (Array_sort (\<lambda>a b. snd b - snd a) L)))"
      using False Lne
      by (simp add: findBestElevator_def av_def [symmetric] L_def [symmetric] Let_def
            Array_sort_eq_Nil hd_def split: list.splits)
    also have "\<dots> = map_option fst (find (\<lambda>p. \<forall>q\<in>set L. snd q \<le> snd p) L)"
      using hd_sort_desc_find [OF Lne, of snd] by simp
    also have "\<dots> = find (\<lambda>e. \<forall>e'\<in>set av. calculateElevatorScore e' c \<le> calculateElevatorScore e c) av"
      by (simp add: L_def find_map option.map_comp comp_def option.map_ident)
    also have "\<dots> = find (\<lambda>e. (\<not> isMoving e \<and> \<not> isLoading e) \<and>
               (\<forall>e'\<in>set es. \<not> isMoving e' \<and> \<not> isLoading e'
                    \<longrightarrow> calculateElevatorScore e' c \<le> calculateElevatorScore e c)) es"
      unfolding av_def find_filter by (rule find_cong) auto
    finally show ?thesis .
  qed
qed


lemma findBest_None:
  "findBestElevator fleet call = None \<longleftrightarrow> (\<forall>car\<in>set fleet. isMoving car \<or> isLoading car)"
proof (cases "filter (\<lambda>e. \<not> isMoving e \<and> \<not> isLoading e) fleet = []")
  case True
  moreover from True have "\<forall>car\<in>set fleet. isMoving car \<or> isLoading car"
    unfolding filter_empty_conv by blast
  ultimately show ?thesis by (simp add: findBestElevator_def)
next
  case False
  then have "Array_sort (\<lambda>a b. snd b - snd a)
               (map (\<lambda>e. (e, calculateElevatorScore e call))
                    (filter (\<lambda>e. \<not> isMoving e \<and> \<not> isLoading e) fleet)) \<noteq> []"
    by (simp add: Array_sort_eq_Nil)
  then have "findBestElevator fleet call \<noteq> None"
    using False by (simp add: findBestElevator_def Let_def split: list.splits)
  moreover from False have "\<not> (\<forall>car\<in>set fleet. isMoving car \<or> isLoading car)"
    unfolding filter_empty_conv by blast
  ultimately show ?thesis by blast
qed

text \<open>
  C3. \<open>findBestElevator\<close> returns nothing exactly when every car is moving or loading.
  Otherwise the car it returns is available, no available car scores higher, and every
  available car before it in the fleet scores strictly lower: it is the first car of
  the fleet with the maximal score. Being a function of the fleet and the call, it
  returns the same car whenever it is asked again.
\<close>

theorem findBestElevator_spec:
  "(findBestElevator fleet call = None \<longleftrightarrow> (\<forall>car\<in>set fleet. isMoving car \<or> isLoading car)) \<and>
   (\<forall>best. findBestElevator fleet call = Some best \<longrightarrow>
      (\<exists>i<length fleet. fleet ! i = best \<and> \<not> isMoving best \<and> \<not> isLoading best \<and>
         (\<forall>j<length fleet. \<not> isMoving (fleet ! j) \<and> \<not> isLoading (fleet ! j) \<longrightarrow>
              calculateElevatorScore (fleet ! j) call \<le> calculateElevatorScore best call) \<and>
         (\<forall>j<i. \<not> isMoving (fleet ! j) \<and> \<not> isLoading (fleet ! j) \<longrightarrow>
              calculateElevatorScore (fleet ! j) call < calculateElevatorScore best call)))"
proof (intro conjI allI impI)
  show "findBestElevator fleet call = None \<longleftrightarrow> (\<forall>car\<in>set fleet. isMoving car \<or> isLoading car)"
    by (rule findBest_None)
next
  fix best
  assume "findBestElevator fleet call = Some best"
  then obtain i where i: "i < length fleet" and b: "best = fleet ! i"
    and av: "\<not> isMoving best" "\<not> isLoading best"
    and mx: "\<forall>e'\<in>set fleet. \<not> isMoving e' \<and> \<not> isLoading e'
                \<longrightarrow> calculateElevatorScore e' call \<le> calculateElevatorScore best call"
    and first: "\<forall>j<i. \<not> ((\<not> isMoving (fleet ! j) \<and> \<not> isLoading (fleet ! j)) \<and>
               (\<forall>e'\<in>set fleet. \<not> isMoving e' \<and> \<not> isLoading e'
                    \<longrightarrow> calculateElevatorScore e' call \<le> calculateElevatorScore (fleet ! j) call))"
    unfolding findBest_find find_Some_iff by blast
  have le: "\<forall>j<length fleet. \<not> isMoving (fleet ! j) \<and> \<not> isLoading (fleet ! j) \<longrightarrow>
              calculateElevatorScore (fleet ! j) call \<le> calculateElevatorScore best call"
    using mx by simp
  have lt: "\<forall>j<i. \<not> isMoving (fleet ! j) \<and> \<not> isLoading (fleet ! j) \<longrightarrow>
              calculateElevatorScore (fleet ! j) call < calculateElevatorScore best call"
  proof (intro allI impI)
    fix j assume j: "j < i" and a: "\<not> isMoving (fleet ! j) \<and> \<not> isLoading (fleet ! j)"
    then obtain e' where "e' \<in> set fleet" "\<not> isMoving e' \<and> \<not> isLoading e'"
      "\<not> calculateElevatorScore e' call \<le> calculateElevatorScore (fleet ! j) call"
      using first by blast
    then show "calculateElevatorScore (fleet ! j) call < calculateElevatorScore best call"
      using mx by force
  qed
  show "\<exists>i<length fleet. fleet ! i = best \<and> \<not> isMoving best \<and> \<not> isLoading best \<and>
         (\<forall>j<length fleet. \<not> isMoving (fleet ! j) \<and> \<not> isLoading (fleet ! j) \<longrightarrow>
              calculateElevatorScore (fleet ! j) call \<le> calculateElevatorScore best call) \<and>
         (\<forall>j<i. \<not> isMoving (fleet ! j) \<and> \<not> isLoading (fleet ! j) \<longrightarrow>
              calculateElevatorScore (fleet ! j) call < calculateElevatorScore best call)"
    using i b av le lt by blast
qed

text \<open>Cars 2 and 3 tie at 190 for an up call at floor 5; car 1 is moving. Car 2, the
  first of the two in the fleet, is returned.\<close>

theorem findBestElevator_spec_witness:
  "findBestElevator fleet_ex (call_at ''c'' 5 UP None) = Some (car_at 2 4 IDLE []) \<and>
   (\<exists>i<length fleet_ex. fleet_ex ! i = car_at 2 4 IDLE [] \<and>
      (\<forall>j<length fleet_ex. \<not> isMoving (fleet_ex ! j) \<and> \<not> isLoading (fleet_ex ! j) \<longrightarrow>
           calculateElevatorScore (fleet_ex ! j) (call_at ''c'' 5 UP None)
             \<le> calculateElevatorScore (car_at 2 4 IDLE []) (call_at ''c'' 5 UP None)) \<and>
      (\<forall>j<i. \<not> isMoving (fleet_ex ! j) \<and> \<not> isLoading (fleet_ex ! j) \<longrightarrow>
           calculateElevatorScore (fleet_ex ! j) (call_at ''c'' 5 UP None)
             < calculateElevatorScore (car_at 2 4 IDLE []) (call_at ''c'' 5 UP None)))"
proof -
  have r: "findBestElevator fleet_ex (call_at ''c'' 5 UP None) = Some (car_at 2 4 IDLE [])"
    by (simp add: fleet_ex_def findBestElevator_def calculateElevatorScore_def
          canPickupWithoutDirectionChange_def car_at_def call_at_def Set_size_def Array_sort_def)
  show ?thesis
    using findBestElevator_spec [of fleet_ex "call_at ''c'' 5 UP None"] r by blast
qed

section \<open>Printing numbers\<close>

lemma show_nat_small: "n < 10 \<Longrightarrow> show_nat n = [digit_char n]"
  by (subst show_nat.simps) simp

lemma show_nat_big: "\<not> n < 10 \<Longrightarrow> show_nat n = show_nat (n div 10) @ [digit_char (n mod 10)]"
  by (subst show_nat.simps) simp

lemmas show_eval = show_int_def show_nat_small show_nat_big digit_char_def char_of_def bit_0

lemma digit_char_not_minus: "d < 10 \<Longrightarrow> digit_char d \<noteq> CHR ''-''"
proof
  assume d: "d < 10" and "digit_char d = CHR ''-''"
  then have "of_char (char_of (48 + d) :: char) = (of_char (CHR ''-'') :: nat)"
    by (simp add: digit_char_def)
  then show False using d by simp
qed

lemma digit_char_value: "d < 10 \<Longrightarrow> (of_char (digit_char d) :: nat) = 48 + d"
  by (simp add: digit_char_def)

lemma show_nat_no_minus: "CHR ''-'' \<notin> set (show_nat n)"
proof (induction n rule: show_nat.induct)
  case (1 n)
  show ?case
  proof (cases "n < 10")
    case True
    then show ?thesis
      using digit_char_not_minus [of n] by (subst show_nat.simps) auto
  next
    case False
    then show ?thesis
      using 1 digit_char_not_minus [of "n mod 10"] by (subst show_nat.simps) auto
  qed
qed

lemma read_show_nat: "read_nat (show_nat n) = n"
proof (induction n rule: show_nat.induct)
  case (1 n)
  show ?case
  proof (cases "n < 10")
    case True
    then show ?thesis
      by (subst show_nat.simps) (simp add: read_nat_def digit_char_value)
  next
    case False
    then have "read_nat (show_nat (n div 10)) = n div 10" using 1 by simp
    then show ?thesis
      using False by (subst show_nat.simps) (simp add: read_nat_def digit_char_value)
  qed
qed

lemma show_nat_inj: "show_nat n = show_nat m \<Longrightarrow> n = m"
  by (metis read_show_nat)

lemma call_id_text_inj:
  assumes "call_id_text n t = call_id_text m u"
  shows "n = m"
proof -
  have "show_nat n @ CHR ''-'' # show_int t = show_nat m @ CHR ''-'' # show_int u"
    using assms by (simp add: call_id_text_def)
  then have "takeWhile (\<lambda>c. c \<noteq> CHR ''-'') (show_nat n @ CHR ''-'' # show_int t)
           = takeWhile (\<lambda>c. c \<noteq> CHR ''-'') (show_nat m @ CHR ''-'' # show_int u)"
    by simp
  moreover have "takeWhile (\<lambda>c. c \<noteq> CHR ''-'') (show_nat j @ CHR ''-'' # rest) = show_nat j"
    for j rest
    using show_nat_no_minus [of j] by (auto simp: takeWhile_tail takeWhile_eq_all_conv)
  ultimately have "show_nat n = show_nat m"
    by simp
  then show ?thesis by (rule show_nat_inj)
qed

section \<open>Creating calls\<close>

text \<open>
  C6. \<open>createFloorCall\<close> fails exactly when the floor is outside \<open>1..FLOORS\<close>, or is 1
  with direction down, or is \<open>FLOORS\<close> with direction up. For a floor strictly between 1
  and \<open>FLOORS\<close> it succeeds for either direction: the call has that floor and direction
  and no assigned car, the counter of the factory has grown by one, and the id, printed
  from the new counter value, differs from every id printed from a counter value already
  used.
\<close>

theorem createFloorCall_spec:
  "((\<exists>e. createFloorCall k dir w = Inl e) \<longleftrightarrow>
      (k < 1 \<or> k > FLOORS \<or> (k = 1 \<and> dir = DOWN) \<or> (k = FLOORS \<and> dir = UP))) \<and>
   (1 < k \<and> k < FLOORS \<longrightarrow>
      (\<exists>call w'. createFloorCall k dir w = Inr (call, w')
         \<and> call_floor call = k \<and> call_direction call = dir \<and> assignedElevator call = None
         \<and> callIdCounter w' = callIdCounter w + 1
         \<and> (\<exists>now. call_id call = call_id_text (callIdCounter w') now)
         \<and> (\<forall>n now. n \<le> callIdCounter w \<longrightarrow> call_id call \<noteq> call_id_text n now)))"
proof -
  have fresh: "\<forall>n now. n \<le> callIdCounter w \<longrightarrow>
                 call_id_text (Suc (callIdCounter w)) t \<noteq> call_id_text n now" for t
    using call_id_text_inj by fastforce
  show ?thesis
    using fresh
    by (auto simp: createFloorCall_def Date_now_def Let_def FLOORS_def)
qed


theorem createFloorCall_spec_witness:
  "(1::int) < 5 \<and> 5 < FLOORS
   \<and> createFloorCall 5 UP world_ex =
       Inr (\<lparr>call_id = ''call-1-1000'', call_floor = 5, call_direction = UP,
             call_timestamp = 1000, assignedElevator = None\<rparr>,
            \<lparr>clock = sconst 1000, random = sconst (1 / 2), callIdCounter = 1\<rparr>)
   \<and> callIdCounter world_ex = 0
   \<and> ''call-1-1000'' \<noteq> call_id_text 0 1000"
proof -
  have h: "(1::int) < 5 \<and> 5 < FLOORS" by (simp add: FLOORS_def)
  have e: "createFloorCall 5 UP world_ex =
       Inr (\<lparr>call_id = ''call-1-1000'', call_floor = 5, call_direction = UP,
             call_timestamp = 1000, assignedElevator = None\<rparr>,
            \<lparr>clock = sconst 1000, random = sconst (1 / 2), callIdCounter = 1\<rparr>)"
    by (simp add: createFloorCall_def world_ex_def Date_now_def FLOORS_def call_id_text_def
          show_eval)
  have c: "callIdCounter world_ex = 0" by (simp add: world_ex_def)
  have "\<forall>n now. n \<le> callIdCounter world_ex \<longrightarrow> ''call-1-1000'' \<noteq> call_id_text n now"
    using createFloorCall_spec [of 5 UP world_ex] h unfolding e by simp
  then have "''call-1-1000'' \<noteq> call_id_text 0 1000" using c by simp
  then show ?thesis using h e c by blast
qed

section \<open>Generating passenger destinations\<close>

lemma draw_floor_range:
  fixes r :: real
  assumes "0 \<le> r" "r < 1" "1 \<le> (n::int)"
  shows "1 \<le> \<lfloor>r * real_of_int n\<rfloor> + 1" and "\<lfloor>r * real_of_int n\<rfloor> + 1 \<le> n"
proof -
  have "0 \<le> r * real_of_int n" using assms by simp
  then have "0 \<le> \<lfloor>r * real_of_int n\<rfloor>" by simp
  then show "1 \<le> \<lfloor>r * real_of_int n\<rfloor> + 1" by simp
  have "r * real_of_int n < real_of_int n" using assms by simp
  then have "\<lfloor>r * real_of_int n\<rfloor> < n" by (simp add: floor_less_iff)
  then show "\<lfloor>r * real_of_int n\<rfloor> + 1 \<le> n" by simp
qed

lemma do_while_props:
  assumes "\<forall>x\<in>sset (random w). 0 \<le> x \<and> x < 1"
    and "do_while cur ds a w = (d, a', w')"
  shows "1 \<le> d \<and> d \<le> FLOORS \<and> (a' < 10 \<longrightarrow> d \<noteq> cur \<and> d \<notin> set ds)
         \<and> sset (random w') \<subseteq> sset (random w)"
  using assms
proof (induction cur ds a w rule: do_while.induct)
  case (1 cur ds a w)
  define dest where "dest = \<lfloor>fst (Math_random w) * real_of_int FLOORS\<rfloor> + 1"
  define w1 where "w1 = snd (Math_random w)"
  have r: "0 \<le> fst (Math_random w)" "fst (Math_random w) < 1"
    using "1.prems"(1) shd_sset [of "random w"] by (auto simp: Math_random_def)
  have range: "1 \<le> dest" "dest \<le> FLOORS"
    using draw_floor_range [OF r, of FLOORS] by (simp_all add: dest_def FLOORS_def)
  have sub: "sset (random w1) \<subseteq> sset (random w)"
    using stl_sset [of _ "random w"] by (auto simp: w1_def Math_random_def)
  show ?case
  proof (cases "(dest = cur \<or> Set_has ds dest) \<and> a + 1 < 10")
    case True
    then have eq: "do_while cur ds a w = do_while cur ds (a + 1) w1"
      by (subst do_while.simps) (simp add: dest_def w1_def Let_def)
    have "\<forall>x\<in>sset (random w1). 0 \<le> x \<and> x < 1" using sub "1.prems"(1) by blast
    moreover have "do_while cur ds (a + 1) w1 = (d, a', w')" using eq "1.prems"(2) by simp
    ultimately have "1 \<le> d \<and> d \<le> FLOORS \<and> (a' < 10 \<longrightarrow> d \<noteq> cur \<and> d \<notin> set ds)
         \<and> sset (random w') \<subseteq> sset (random w1)"
      using "1.IH" [OF dest_def w1_def refl] True by simp
    then show ?thesis using sub by blast
  next
    case False
    then have "do_while cur ds a w = (dest, a + 1, w1)"
      by (subst do_while.simps) (auto simp: dest_def w1_def Let_def)
    then have "d = dest" "a' = a + 1" "w' = w1" using "1.prems"(2) by simp_all
    then show ?thesis using range sub False by (auto simp: Set_has_def)
  qed
qed

lemma for_slots_props:
  assumes "\<forall>x\<in>sset (random w). 0 \<le> x \<and> x < 1"
    and "distinct ds" and "\<forall>d\<in>set ds. 1 \<le> d \<and> d \<le> FLOORS \<and> d \<noteq> cur"
  shows "distinct (fst (for_slots n cur ds w))
         \<and> (\<forall>d\<in>set (fst (for_slots n cur ds w)). 1 \<le> d \<and> d \<le> FLOORS \<and> d \<noteq> cur)
         \<and> length (fst (for_slots n cur ds w)) \<le> length ds + n"
  using assms
proof (induction n arbitrary: ds w)
  case 0
  then show ?case by simp
next
  case (Suc n)
  obtain d a' w' where dw: "do_while cur ds 0 w = (d, a', w')"
    by (cases "do_while cur ds 0 w") auto
  define ds' where "ds' = (if a' < 10 then Set_add ds d else ds)"
  have p: "1 \<le> d \<and> d \<le> FLOORS \<and> (a' < 10 \<longrightarrow> d \<noteq> cur \<and> d \<notin> set ds)
         \<and> sset (random w') \<subseteq> sset (random w)"
    using do_while_props [OF Suc.prems(1) dw] .
  have 1: "\<forall>x\<in>sset (random w'). 0 \<le> x \<and> x < 1" using p Suc.prems(1) by blast
  have 2: "distinct ds'" using p Suc.prems(2) by (simp add: ds'_def Set_add_def)
  have 3: "\<forall>d\<in>set ds'. 1 \<le> d \<and> d \<le> FLOORS \<and> d \<noteq> cur"
    using p Suc.prems(3) by (auto simp: ds'_def Set_add_def)
  have 4: "length ds' \<le> length ds + 1" by (simp add: ds'_def Set_add_def)
  have eq: "for_slots (Suc n) cur ds w = for_slots n cur ds' w'"
    using dw by (simp add: ds'_def)
  show ?case using Suc.IH [OF 1 2 3] 4 unfolding eq by simp
qed

lemma generatePassengerDestinations_sound:
  assumes "\<forall>x\<in>sset (random w). 0 \<le> x \<and> x < 1" and "1 \<le> maxDestinations"
  shows "distinct (fst (generatePassengerDestinations cur maxDestinations w))
         \<and> (\<forall>d\<in>set (fst (generatePassengerDestinations cur maxDestinations w)).
               1 \<le> d \<and> d \<le> FLOORS \<and> d \<noteq> cur)
         \<and> int (length (fst (generatePassengerDestinations cur maxDestinations w))) \<le> maxDestinations"
proof -
  define r where "r = fst (Math_random w)"
  define w1 where "w1 = snd (Math_random w)"
  define n where "n = nat (\<lfloor>r * real_of_int maxDestinations\<rfloor> + 1)"
  have r: "0 \<le> r" "r < 1"
    using assms(1) shd_sset [of "random w"] by (auto simp: r_def Math_random_def)
  have n: "int n \<le> maxDestinations"
    using draw_floor_range [OF r assms(2)] by (simp add: n_def)
  have "sset (random w1) \<subseteq> sset (random w)"
    using stl_sset [of _ "random w"] by (auto simp: w1_def Math_random_def)
  then have 1: "\<forall>x\<in>sset (random w1). 0 \<le> x \<and> x < 1" using assms(1) by blast
  have eq: "generatePassengerDestinations cur maxDestinations w = for_slots n cur [] w1"
    by (simp add: generatePassengerDestinations_def n_def r_def w1_def split: prod.splits)
  show ?thesis
    using for_slots_props [OF 1, of "[]" cur n] n unfolding eq by simp
qed


lemma world_retry_draws: "\<forall>x\<in>sset (random world_retry). 0 \<le> x \<and> x < 1"
  by (simp add: world_retry_def)

text \<open>
  C4. Boarding at floor 5 with at most 3 destinations: the first draw gives one slot, the
  next nine draws all give floor 5, the tenth gives floor 7. The loop stops with ten
  attempts made, the test \<open>attempts < 10\<close> fails, floor 7 is not added and the set
  returned is empty, in a building of ten floors.
\<close>

theorem generatePassengerDestinations_empty:
  "fst (generatePassengerDestinations 5 3 world_retry) = [] \<and> 2 \<le> FLOORS"
  by (simp add: generatePassengerDestinations_def do_while.simps world_retry_def
        Math_random_def FLOORS_def Set_has_def)

section \<open>The log buffer\<close>

lemma createLogEntry_content:
  "log_content (fst (createLogEntry t m e f w)) = (t, m, e, f)"
  by (simp add: createLogEntry_def log_content_def Date_now_def Math_random_def)

lemma addLog_frame:
  "elevators (addLog t m e f s) = elevators s"
  "pendingCalls (addLog t m e f s) = pendingCalls s"
  "totalCallsProcessed (addLog t m e f s) = totalCallsProcessed s"
  "timers (addLog t m e f s) = timers s"
  "isSimulationRunning (addLog t m e f s) = isSimulationRunning s"
  "systemStartTime (addLog t m e f s) = systemStartTime s"
  "callIdCounter (addLog t m e f s) = callIdCounter s"
  by (simp_all add: addLog_def createLogEntry_def Date_now_def Math_random_def)

lemma addLog_logs:
  "logs (addLog t m e f s) =
     (if length (logs s) \<ge> MAX_LOG_ENTRIES
      then Array_slice (logs s) (- int MAX_LOG_ENTRIES + 1) else logs s)
     @ [fst (createLogEntry t m e f s)]"
  by (simp add: addLog_def createLogEntry_def Date_now_def Math_random_def)

lemma addLog_logs_drop:
  assumes "length (logs s) \<le> MAX_LOG_ENTRIES"
  shows "logs (addLog t m e f s)
           = drop (length (logs s) + 1 - MAX_LOG_ENTRIES) (logs s @ [fst (createLogEntry t m e f s)])"
proof (cases "length (logs s) = MAX_LOG_ENTRIES")
  case True
  then have "Array_slice (logs s) (- int MAX_LOG_ENTRIES + 1) = drop 1 (logs s)"
    by (simp add: Array_slice_def MAX_LOG_ENTRIES_def)
  then show ?thesis using True by (simp add: addLog_logs MAX_LOG_ENTRIES_def)
next
  case False
  then have "length (logs s) < MAX_LOG_ENTRIES" using assms by simp
  then show ?thesis by (simp add: addLog_logs)
qed

lemma addLogs_Cons:
  "addLogs ((t, m, e, f) # args) s = addLogs args (addLog t m e f s)"
  by (simp add: addLogs_def)

text \<open>
  C5. Starting from a log of at most \<open>MAX_LOG_ENTRIES\<close> entries, after any run of
  \<open>addLog\<close> calls the log is the old log followed by the new entries, in order, with the
  oldest dropped so that only the newest \<open>min total MAX_LOG_ENTRIES\<close> remain, where
  \<open>total\<close> counts the old and the new entries; each new entry carries the type, message,
  elevator and floor it was logged with.
\<close>

theorem addLog_cap:
  assumes "length (logs s) \<le> MAX_LOG_ENTRIES"
  shows "\<exists>es. map log_content es = args
            \<and> logs (addLogs args s)
                = drop (length (logs s) + length args - MAX_LOG_ENTRIES) (logs s @ es)
            \<and> length (logs (addLogs args s))
                = min (length (logs s) + length args) MAX_LOG_ENTRIES"
  using assms
proof (induction args arbitrary: s)
  case Nil
  then show ?case by (simp add: addLogs_def)
next
  case (Cons a args)
  obtain t m e f where a: "a = (t, m, e, f)" by (cases a) auto
  define s1 where "s1 = addLog t m e f s"
  define e1 where "e1 = fst (createLogEntry t m e f s)"
  define k where "k = length (logs s) + 1 - MAX_LOG_ENTRIES"
  have l1: "logs s1 = drop k (logs s @ [e1])"
    using addLog_logs_drop [OF Cons.prems] by (simp add: s1_def e1_def k_def)
  have k: "k \<le> 1" "k \<le> length (logs s)" "length (logs s) + 1 - k \<le> MAX_LOG_ENTRIES"
    using Cons.prems by (auto simp: k_def MAX_LOG_ENTRIES_def)
  have len1: "length (logs s1) = length (logs s) + 1 - k" by (simp add: l1)
  then have le1: "length (logs s1) \<le> MAX_LOG_ENTRIES" using k by simp
  obtain es where es: "map log_content es = args"
    and lg: "logs (addLogs args s1)
               = drop (length (logs s1) + length args - MAX_LOG_ENTRIES) (logs s1 @ es)"
    and ln: "length (logs (addLogs args s1)) = min (length (logs s1) + length args) MAX_LOG_ENTRIES"
    using Cons.IH [OF le1] by blast
  have c: "map log_content (e1 # es) = a # args"
    using es by (simp add: a e1_def createLogEntry_content)
  have "logs s1 @ es = drop k (logs s @ e1 # es)" using k by (simp add: l1)
  then have "logs (addLogs args s1)
               = drop (length (logs s1) + length args - MAX_LOG_ENTRIES)
                   (drop k (logs s @ e1 # es))"
    using lg by (simp only:)
  then have "logs (addLogs args s1)
               = drop (length (logs s1) + length args - MAX_LOG_ENTRIES + k) (logs s @ e1 # es)"
    by (simp only: drop_drop)
  moreover have "length (logs s1) + length args - MAX_LOG_ENTRIES + k
                   = length (logs s) + Suc (length args) - MAX_LOG_ENTRIES"
    using len1 k_def Cons.prems by arith
  then have "length (logs s1) + length args - MAX_LOG_ENTRIES + k
                   = length (logs s) + length (a # args) - MAX_LOG_ENTRIES"
    by simp
  ultimately have L: "logs (addLogs (a # args) s)
               = drop (length (logs s) + length (a # args) - MAX_LOG_ENTRIES) (logs s @ e1 # es)"
    by (simp add: a addLogs_Cons s1_def)
  have "min (length (logs s1) + length args) MAX_LOG_ENTRIES
          = min (length (logs s) + Suc (length args)) MAX_LOG_ENTRIES"
    using len1 k_def Cons.prems by arith
  then have N: "length (logs (addLogs (a # args) s))
             = min (length (logs s) + length (a # args)) MAX_LOG_ENTRIES"
    using ln by (simp add: a addLogs_Cons s1_def)
  show ?case
    by (rule exI [of _ "e1 # es"]) (use c L N in \<open>simp only: simp_thms\<close>)
qed


text \<open>One more entry on a full log of 100: the oldest entry goes, 100 remain.\<close>

theorem addLog_cap_witness:
  "length (logs service_full) \<le> MAX_LOG_ENTRIES
   \<and> length (logs service_full) = 100
   \<and> (\<exists>es. map log_content es = [(PICKUP, ''Elevator 1 loading passengers at floor 5'', Some 1, Some 5)]
         \<and> logs (addLogs [(PICKUP, ''Elevator 1 loading passengers at floor 5'', Some 1, Some 5)] service_full)
             = drop 1 (logs service_full @ es)
         \<and> length (logs (addLogs [(PICKUP, ''Elevator 1 loading passengers at floor 5'', Some 1, Some 5)]
                            service_full)) = 100)"
proof -
  have h: "length (logs service_full) \<le> MAX_LOG_ENTRIES"
    by (simp add: service_full_def MAX_LOG_ENTRIES_def)
  have l: "length (logs service_full) = 100" by (simp add: service_full_def)
  show ?thesis
    using addLog_cap [OF h, of "[(PICKUP, ''Elevator 1 loading passengers at floor 5'', Some 1, Some 5)]"] h
    unfolding l by (simp add: MAX_LOG_ENTRIES_def)
qed

section \<open>What the service steps leave unchanged\<close>

lemma update_elevator_frame:
  "elevators (update_elevator i g s) = (elevators s)[i := g (elevators s ! i)]"
  "pendingCalls (update_elevator i g s) = pendingCalls s"
  "totalCallsProcessed (update_elevator i g s) = totalCallsProcessed s"
  "logs (update_elevator i g s) = logs s"
  "timers (update_elevator i g s) = timers s"
  "isSimulationRunning (update_elevator i g s) = isSimulationRunning s"
  "systemStartTime (update_elevator i g s) = systemStartTime s"
  "callIdCounter (update_elevator i g s) = callIdCounter s"
  "clock (update_elevator i g s) = clock s"
  "random (update_elevator i g s) = random s"
  by (simp_all add: update_elevator_def)

lemma Date_now_frame:
  "fst (Date_now s) = shd (clock s)"
  "elevators (snd (Date_now s)) = elevators s"
  "pendingCalls (snd (Date_now s)) = pendingCalls s"
  "totalCallsProcessed (snd (Date_now s)) = totalCallsProcessed s"
  "logs (snd (Date_now s)) = logs s"
  "timers (snd (Date_now s)) = timers s"
  "isSimulationRunning (snd (Date_now s)) = isSimulationRunning s"
  "systemStartTime (snd (Date_now s)) = systemStartTime s"
  "callIdCounter (snd (Date_now (s::Service))) = callIdCounter s"
  by (simp_all add: Date_now_def)

lemma setTimeout_frame:
  "elevators (setTimeout t d s) = elevators s"
  "pendingCalls (setTimeout t d s) = pendingCalls s"
  "totalCallsProcessed (setTimeout t d s) = totalCallsProcessed s"
  "isSimulationRunning (setTimeout t d s) = isSimulationRunning s"
  "systemStartTime (setTimeout t d s) = systemStartTime s"
  "callIdCounter (setTimeout t d s) = callIdCounter s"
  by (simp_all add: setTimeout_def)

lemma handlePassengerDropoff_elevator:
  assumes "i < length (elevators s)"
  shows "elevators (handlePassengerDropoff i fl s) ! i =
           (elevators s ! i)
             \<lparr>destinationFloors := Set_delete (destinationFloors (elevators s ! i)) fl,
              passengers := Set_size (Set_delete (destinationFloors (elevators s ! i)) fl),
              lastActivity := shd (clock s),
              direction := (if Set_delete (destinationFloors (elevators s ! i)) fl = []
                            then IDLE else direction (elevators s ! i))\<rparr>"
  using assms
  by (simp add: handlePassengerDropoff_def Let_def split_beta addLog_frame update_elevator_frame
        Date_now_frame Set_size_def)

lemma handlePassengerDropoff_frame:
  "pendingCalls (handlePassengerDropoff i fl s) = pendingCalls s"
  "totalCallsProcessed (handlePassengerDropoff i fl s) = totalCallsProcessed s"
  "length (elevators (handlePassengerDropoff i fl s)) = length (elevators s)"
  by (simp_all add: handlePassengerDropoff_def Let_def split_beta addLog_frame update_elevator_frame
        Date_now_frame)

lemma handlePassengerPickup_elevator:
  assumes "i < length (elevators s)"
  shows "elevators (handlePassengerPickup i fl c s) ! i =
           (elevators s ! i)\<lparr>isLoading := True, lastActivity := shd (clock s)\<rparr>"
  using assms
  by (simp add: handlePassengerPickup_def Let_def split_beta addLog_frame update_elevator_frame
        Date_now_frame setTimeout_frame)

lemma handlePassengerPickup_frame:
  "pendingCalls (handlePassengerPickup i fl c s) = filter (\<lambda>x. call_id x \<noteq> call_id c) (pendingCalls s)"
  "totalCallsProcessed (handlePassengerPickup i fl c s) = totalCallsProcessed s + 1"
  by (simp_all add: handlePassengerPickup_def Let_def split_beta addLog_frame update_elevator_frame
        Date_now_frame setTimeout_frame)


section \<open>Adding a call\<close>

text \<open>
  C10. \<open>addFloorCall\<close> leaves the list of cars as it was, so every field of every car is
  unchanged. The pending list grows by exactly one entry at its end: the call itself
  when no car is available, the call assigned to the best car otherwise. The running
  flag, the start time, the processed-call counter and the timers are unchanged; the
  rest of the state that changes is the log.
\<close>

theorem addFloorCall_frame:
  "elevators (addFloorCall call s) = elevators s
   \<and> pendingCalls (addFloorCall call s)
       = pendingCalls s @ [case findBestElevator (elevators s) call of
                              None \<Rightarrow> call
                            | Some best \<Rightarrow> call\<lparr>assignedElevator := Some (elevator_id best)\<rparr>]
   \<and> length (pendingCalls (addFloorCall call s)) = length (pendingCalls s) + 1
   \<and> isSimulationRunning (addFloorCall call s) = isSimulationRunning s
   \<and> systemStartTime (addFloorCall call s) = systemStartTime s
   \<and> totalCallsProcessed (addFloorCall call s) = totalCallsProcessed s
   \<and> timers (addFloorCall call s) = timers s"
proof (cases "findBestElevator (elevators s) call")
  case None
  then show ?thesis by (simp add: addFloorCall_def Let_def addLog_frame)
next
  case (Some best)
  then show ?thesis by (simp add: addFloorCall_def Let_def addLog_frame)
qed

text \<open>An up call at floor 4: car 2, idle at floor 3, is the best car; the cars are
  unchanged and the call is queued with car 2 assigned.\<close>

theorem addFloorCall_frame_witness:
  "elevators (addFloorCall (call_at ''call-4-1000'' 4 UP None) service_ex) = elevators service_ex
   \<and> pendingCalls (addFloorCall (call_at ''call-4-1000'' 4 UP None) service_ex)
       = pendingCalls service_ex @ [call_at ''call-4-1000'' 4 UP (Some 2)]"
proof -
  have b: "findBestElevator (elevators service_ex) (call_at ''call-4-1000'' 4 UP None)
             = Some (car_at 2 3 IDLE [])"
    by (simp add: service_ex_def findBestElevator_def calculateElevatorScore_def
          canPickupWithoutDirectionChange_def car_at_def call_at_def Set_size_def Array_sort_def)
  show ?thesis
    using addFloorCall_frame [of "call_at ''call-4-1000'' 4 UP None" service_ex]
    unfolding b by (simp add: call_at_def car_at_def)
qed

section \<open>Stopping at a floor\<close>

lemma filter_id_remove1:
  assumes "distinct (map call_id xs)" "c \<in> set xs"
  shows "filter (\<lambda>x. call_id x \<noteq> call_id c) xs = remove1 c xs"
  using assms
proof (induction xs)
  case Nil
  then show ?case by simp
next
  case (Cons x xs)
  show ?case
  proof (cases "x = c")
    case True
    then have "call_id c \<notin> call_id ` set xs" using Cons.prems(1) by simp
    then have "\<forall>y\<in>set xs. call_id y \<noteq> call_id c" by (metis imageI)
    then have "filter (\<lambda>x. call_id x \<noteq> call_id c) xs = xs" by (simp add: filter_id_conv)
    then show ?thesis using True by simp
  next
    case False
    then have "c \<in> set xs" using Cons.prems(2) by simp
    moreover from this have "call_id x \<noteq> call_id c" using Cons.prems(1) by auto
    ultimately show ?thesis using Cons False by simp
  qed
qed

lemma handleElevatorAtFloor_cases:
  "handleElevatorAtFloor i s =
     (if \<not> shouldElevatorStop (elevators s ! i) (currentFloor (elevators s ! i)) (pendingCalls s)
      then s
      else case find (\<lambda>call. call_floor call = currentFloor (elevators s ! i)
                       \<and> assignedElevator call
                           = Some (elevator_id (elevators
                               (if Set_has (destinationFloors (elevators s ! i)) (currentFloor (elevators s ! i))
                                then handlePassengerDropoff i (currentFloor (elevators s ! i)) s else s) ! i)))
                     (pendingCalls
                        (if Set_has (destinationFloors (elevators s ! i)) (currentFloor (elevators s ! i))
                         then handlePassengerDropoff i (currentFloor (elevators s ! i)) s else s)) of
             None \<Rightarrow> (if Set_has (destinationFloors (elevators s ! i)) (currentFloor (elevators s ! i))
                       then handlePassengerDropoff i (currentFloor (elevators s ! i)) s else s)
           | Some call \<Rightarrow> handlePassengerPickup i (currentFloor (elevators s ! i)) call
                 (if Set_has (destinationFloors (elevators s ! i)) (currentFloor (elevators s ! i))
                  then handlePassengerDropoff i (currentFloor (elevators s ! i)) s else s))"
  by (simp add: handleElevatorAtFloor_def Let_def)

text \<open>
  C8. When the floor a car stands at is one of its destinations, one pass of
  \<open>handleElevatorAtFloor\<close> removes that floor from the destinations and sets the
  passenger count to the size of the new destination set; when the set has become empty
  the car's direction is idle.
\<close>

theorem handleElevatorAtFloor_dropoff:
  assumes "i < length (elevators s)"
    and "currentFloor (elevators s ! i) \<in> set (destinationFloors (elevators s ! i))"
  shows "destinationFloors (elevators (handleElevatorAtFloor i s) ! i)
           = Set_delete (destinationFloors (elevators s ! i)) (currentFloor (elevators s ! i))
       \<and> set (destinationFloors (elevators (handleElevatorAtFloor i s) ! i))
           = set (destinationFloors (elevators s ! i)) - {currentFloor (elevators s ! i)}
       \<and> passengers (elevators (handleElevatorAtFloor i s) ! i)
           = Set_size (destinationFloors (elevators (handleElevatorAtFloor i s) ! i))
       \<and> (distinct (destinationFloors (elevators s ! i)) \<longrightarrow>
            passengers (elevators (handleElevatorAtFloor i s) ! i)
              = card (set (destinationFloors (elevators s ! i)) - {currentFloor (elevators s ! i)}))
       \<and> (destinationFloors (elevators (handleElevatorAtFloor i s) ! i) = [] \<longrightarrow>
            direction (elevators (handleElevatorAtFloor i s) ! i) = IDLE)"
proof -
  define car where "car = elevators s ! i"
  define cur where "cur = currentFloor car"
  define s1 where "s1 = handlePassengerDropoff i cur s"
  define car1 where "car1 = elevators s1 ! i"
  define car' where "car' = elevators (handleElevatorAtFloor i s) ! i"
  have has: "Set_has (destinationFloors car) cur"
    using assms(2) by (simp add: Set_has_def car_def cur_def)
  then have stop: "shouldElevatorStop car cur (pendingCalls s)"
    by (simp add: shouldElevatorStop_def)
  have c1: "car1 = car\<lparr>destinationFloors := Set_delete (destinationFloors car) cur,
              passengers := Set_size (Set_delete (destinationFloors car) cur),
              lastActivity := shd (clock s),
              direction := (if Set_delete (destinationFloors car) cur = []
                            then IDLE else direction car)\<rparr>"
    using handlePassengerDropoff_elevator [OF assms(1), of cur]
    by (simp add: car1_def s1_def car_def)
  have len1: "i < length (elevators s1)"
    using assms(1) by (simp add: s1_def handlePassengerDropoff_frame)
  have "car' = car1 \<or> car' = car1\<lparr>isLoading := True, lastActivity := shd (clock s1)\<rparr>"
    using has stop handlePassengerPickup_elevator [OF len1]
    unfolding car'_def handleElevatorAtFloor_cases car_def [symmetric] cur_def [symmetric]
      s1_def [symmetric] car1_def
    by (auto split: option.splits)
  then have d: "destinationFloors car' = Set_delete (destinationFloors car) cur"
    and p: "passengers car' = Set_size (Set_delete (destinationFloors car) cur)"
    and dir: "direction car' = (if Set_delete (destinationFloors car) cur = []
                            then IDLE else direction car)"
    unfolding c1 by auto
  have st: "set (Set_delete (destinationFloors car) cur) = set (destinationFloors car) - {cur}"
    by (auto simp: Set_delete_def)
  have "distinct (destinationFloors car) \<longrightarrow>
          Set_size (Set_delete (destinationFloors car) cur)
            = card (set (destinationFloors car) - {cur})"
    unfolding st [symmetric] Set_size_def Set_delete_def
    by (metis distinct_filter distinct_card)
  then show ?thesis
    using d p dir st unfolding car'_def cur_def car_def by simp
qed


text \<open>A car at floor 5 whose only destination is floor 5, with one passenger: after
  the pass it has no destination, no passenger, and is idle.\<close>

theorem handleElevatorAtFloor_dropoff_witness:
  "0 < length (elevators service_ex)
   \<and> currentFloor (elevators service_ex ! 0) = 5
   \<and> destinationFloors (elevators service_ex ! 0) = [5]
   \<and> passengers (elevators service_ex ! 0) = 1
   \<and> destinationFloors (elevators (handleElevatorAtFloor 0 service_ex) ! 0) = []
   \<and> passengers (elevators (handleElevatorAtFloor 0 service_ex) ! 0) = 0
   \<and> direction (elevators (handleElevatorAtFloor 0 service_ex) ! 0) = IDLE"
proof -
  have h1: "0 < length (elevators service_ex)" by (simp add: service_ex_def)
  have h2: "currentFloor (elevators service_ex ! 0) \<in> set (destinationFloors (elevators service_ex ! 0))"
    by (simp add: service_ex_def car_at_def)
  have e: "currentFloor (elevators service_ex ! 0) = 5"
    "destinationFloors (elevators service_ex ! 0) = [5]"
    "passengers (elevators service_ex ! 0) = 1"
    by (simp_all add: service_ex_def car_at_def)
  show ?thesis
    using handleElevatorAtFloor_dropoff [OF h1 h2] h1 unfolding e by (simp add: Set_delete_def Set_size_def)
qed


lemma handleElevatorAtFloor_queue:
  assumes "i < length (elevators s)"
  shows "pendingCalls (handleElevatorAtFloor i s) =
           (if shouldElevatorStop (elevators s ! i) (currentFloor (elevators s ! i)) (pendingCalls s)
            then (case find (\<lambda>call. call_floor call = currentFloor (elevators s ! i)
                                 \<and> assignedElevator call = Some (elevator_id (elevators s ! i)))
                            (pendingCalls s) of
                    None \<Rightarrow> pendingCalls s
                  | Some call \<Rightarrow> filter (\<lambda>c. call_id c \<noteq> call_id call) (pendingCalls s))
            else pendingCalls s)"
    and "totalCallsProcessed (handleElevatorAtFloor i s) =
           (if shouldElevatorStop (elevators s ! i) (currentFloor (elevators s ! i)) (pendingCalls s)
            then (case find (\<lambda>call. call_floor call = currentFloor (elevators s ! i)
                                 \<and> assignedElevator call = Some (elevator_id (elevators s ! i)))
                            (pendingCalls s) of
                    None \<Rightarrow> totalCallsProcessed s
                  | Some call \<Rightarrow> totalCallsProcessed s + 1)
            else totalCallsProcessed s)"
proof -
  define car where "car = elevators s ! i"
  define cur where "cur = currentFloor car"
  define s1 where "s1 = (if Set_has (destinationFloors car) cur
                         then handlePassengerDropoff i cur s else s)"
  have pc1: "pendingCalls s1 = pendingCalls s" and t1: "totalCallsProcessed s1 = totalCallsProcessed s"
    by (simp_all add: s1_def handlePassengerDropoff_frame)
  have id1: "elevator_id (elevators s1 ! i) = elevator_id car"
    using handlePassengerDropoff_elevator [OF assms(1), of cur]
    by (simp add: s1_def car_def)
  have unf: "handleElevatorAtFloor i s =
     (if \<not> shouldElevatorStop car cur (pendingCalls s) then s
      else case find (\<lambda>call. call_floor call = cur \<and> assignedElevator call = Some (elevator_id car))
                     (pendingCalls s) of
             None \<Rightarrow> s1
           | Some call \<Rightarrow> handlePassengerPickup i cur call s1)"
    unfolding handleElevatorAtFloor_cases car_def [symmetric] cur_def [symmetric]
      s1_def [symmetric] id1 pc1 by simp
  show "pendingCalls (handleElevatorAtFloor i s) =
           (if shouldElevatorStop (elevators s ! i) (currentFloor (elevators s ! i)) (pendingCalls s)
            then (case find (\<lambda>call. call_floor call = currentFloor (elevators s ! i)
                                 \<and> assignedElevator call = Some (elevator_id (elevators s ! i)))
                            (pendingCalls s) of
                    None \<Rightarrow> pendingCalls s
                  | Some call \<Rightarrow> filter (\<lambda>c. call_id c \<noteq> call_id call) (pendingCalls s))
            else pendingCalls s)"
    unfolding car_def [symmetric] cur_def [symmetric] unf
    by (simp add: pc1 handlePassengerPickup_frame split: option.splits)
  show "totalCallsProcessed (handleElevatorAtFloor i s) =
           (if shouldElevatorStop (elevators s ! i) (currentFloor (elevators s ! i)) (pendingCalls s)
            then (case find (\<lambda>call. call_floor call = currentFloor (elevators s ! i)
                                 \<and> assignedElevator call = Some (elevator_id (elevators s ! i)))
                            (pendingCalls s) of
                    None \<Rightarrow> totalCallsProcessed s
                  | Some call \<Rightarrow> totalCallsProcessed s + 1)
            else totalCallsProcessed s)"
    unfolding car_def [symmetric] cur_def [symmetric] unf
    by (simp add: t1 handlePassengerPickup_frame split: option.splits)
qed

lemma service_dup_fields:
  "elevators service_dup = [car_at 1 5 IDLE []]"
  "pendingCalls service_dup
     = [call_at ''call-1-1000'' 5 UP (Some 1), call_at ''call-1-1000'' 5 UP (Some 1)]"
  "totalCallsProcessed service_dup = 0"
proof -
  have b: "findBestElevator [car_at 1 5 IDLE []] (call_at ''call-1-1000'' 5 UP None)
             = Some (car_at 1 5 IDLE [])"
    by (simp add: findBestElevator_def Array_sort_def car_at_def)
  have e: "elevator_id (car_at 1 5 IDLE []) = 1" by (simp add: car_at_def)
  have a: "(call_at ''call-1-1000'' 5 UP None)\<lparr>assignedElevator := Some 1\<rparr>
             = call_at ''call-1-1000'' 5 UP (Some 1)"
    by (simp add: call_at_def)
  have one: "elevators (addFloorCall (call_at ''call-1-1000'' 5 UP None) s) = elevators s
           \<and> totalCallsProcessed (addFloorCall (call_at ''call-1-1000'' 5 UP None) s)
               = totalCallsProcessed s
           \<and> pendingCalls (addFloorCall (call_at ''call-1-1000'' 5 UP None) s)
               = pendingCalls s @ [call_at ''call-1-1000'' 5 UP (Some 1)]"
    if "elevators s = [car_at 1 5 IDLE []]" for s
    using that b by (simp add: addFloorCall_def Let_def addLog_frame e a)
  have s1: "elevators service_one = [car_at 1 5 IDLE []]" "pendingCalls service_one = []"
    "totalCallsProcessed service_one = 0"
    by (simp_all add: service_one_def)
  have first: "elevators (addFloorCall (call_at ''call-1-1000'' 5 UP None) service_one)
                 = [car_at 1 5 IDLE []]"
    using one [OF s1(1)] s1 by simp
  show "elevators service_dup = [car_at 1 5 IDLE []]"
    unfolding service_dup_def using one [OF first] first by simp
  show "pendingCalls service_dup
     = [call_at ''call-1-1000'' 5 UP (Some 1), call_at ''call-1-1000'' 5 UP (Some 1)]"
    unfolding service_dup_def using one [OF first] one [OF s1(1)] s1 by simp
  show "totalCallsProcessed service_dup = 0"
    unfolding service_dup_def using one [OF first] one [OF s1(1)] s1 by simp
qed

text \<open>
  C9, as stated, fails: it holds only when the ids of the pending calls are distinct.
  The same call handed to \<open>addFloorCall\<close> twice is queued twice for the car standing at
  its floor; one pass of \<open>handleElevatorAtFloor\<close> removes both entries, and counts one
  call.
\<close>

theorem handleElevatorAtFloor_removes_two:
  "length (pendingCalls service_dup) = 2
   \<and> pendingCalls (handleElevatorAtFloor 0 service_dup) = []
   \<and> totalCallsProcessed (handleElevatorAtFloor 0 service_dup)
       = totalCallsProcessed service_dup + 1"
proof -
  have h: "0 < length (elevators service_dup)" by (simp add: service_dup_fields)
  show ?thesis
    using handleElevatorAtFloor_queue [OF h]
    by (simp add: service_dup_fields call_at_def car_at_def shouldElevatorStop_def Set_has_def
          isCallCompatibleWithDirection_def)
qed

text \<open>
  C9, amended. One pass of \<open>handleElevatorAtFloor\<close> for a car adds at most one to the
  processed-call counter. When the car stops and some pending call at its floor is
  assigned to it, the counter grows by one and the pending calls removed are those
  carrying the id of the first such call of the queue; otherwise the queue and the
  counter are unchanged. When the ids of the pending calls are distinct, exactly one
  call is removed, the first such call in queue order, even when several pending calls
  at that floor are assigned to the car.
\<close>

theorem handleElevatorAtFloor_one_pickup:
  assumes "i < length (elevators s)"
  shows "totalCallsProcessed (handleElevatorAtFloor i s) \<le> totalCallsProcessed s + 1
       \<and> (if shouldElevatorStop (elevators s ! i) (currentFloor (elevators s ! i)) (pendingCalls s)
          then (case find (\<lambda>call. call_floor call = currentFloor (elevators s ! i)
                               \<and> assignedElevator call = Some (elevator_id (elevators s ! i)))
                          (pendingCalls s) of
                  None \<Rightarrow> pendingCalls (handleElevatorAtFloor i s) = pendingCalls s
                          \<and> totalCallsProcessed (handleElevatorAtFloor i s) = totalCallsProcessed s
                | Some call \<Rightarrow>
                    pendingCalls (handleElevatorAtFloor i s)
                      = filter (\<lambda>c. call_id c \<noteq> call_id call) (pendingCalls s)
                    \<and> totalCallsProcessed (handleElevatorAtFloor i s) = totalCallsProcessed s + 1
                    \<and> (distinct (map call_id (pendingCalls s)) \<longrightarrow>
                         pendingCalls (handleElevatorAtFloor i s) = remove1 call (pendingCalls s)
                         \<and> length (pendingCalls (handleElevatorAtFloor i s)) + 1
                             = length (pendingCalls s)))
          else pendingCalls (handleElevatorAtFloor i s) = pendingCalls s
               \<and> totalCallsProcessed (handleElevatorAtFloor i s) = totalCallsProcessed s)"
proof -
  define stop where
    "stop = shouldElevatorStop (elevators s ! i) (currentFloor (elevators s ! i)) (pendingCalls s)"
  define pick where
    "pick = find (\<lambda>call. call_floor call = currentFloor (elevators s ! i)
                       \<and> assignedElevator call = Some (elevator_id (elevators s ! i)))
                 (pendingCalls s)"
  have q: "pendingCalls (handleElevatorAtFloor i s) =
             (if stop then (case pick of None \<Rightarrow> pendingCalls s
                            | Some call \<Rightarrow> filter (\<lambda>c. call_id c \<noteq> call_id call) (pendingCalls s))
              else pendingCalls s)"
    and t: "totalCallsProcessed (handleElevatorAtFloor i s) =
             (if stop then (case pick of None \<Rightarrow> totalCallsProcessed s
                            | Some call \<Rightarrow> totalCallsProcessed s + 1)
              else totalCallsProcessed s)"
    unfolding stop_def pick_def by (rule handleElevatorAtFloor_queue [OF assms])+
  have le: "totalCallsProcessed (handleElevatorAtFloor i s) \<le> totalCallsProcessed s + 1"
    unfolding t by (simp split: option.splits)
  have rm: "filter (\<lambda>c. call_id c \<noteq> call_id call) (pendingCalls s) = remove1 call (pendingCalls s)
            \<and> length (filter (\<lambda>c. call_id c \<noteq> call_id call) (pendingCalls s)) + 1
                = length (pendingCalls s)"
    if "pick = Some call" "distinct (map call_id (pendingCalls s))" for call
  proof -
    have m: "call \<in> set (pendingCalls s)"
      using that(1) unfolding pick_def by (auto simp: find_Some_iff)
    then have f: "filter (\<lambda>c. call_id c \<noteq> call_id call) (pendingCalls s)
                    = remove1 call (pendingCalls s)"
      using filter_id_remove1 [OF that(2)] by simp
    have "0 < length (pendingCalls s)" using m by (rule length_pos_if_in_set)
    then have "length (remove1 call (pendingCalls s)) + 1 = length (pendingCalls s)"
      using m by (simp add: length_remove1)
    then show ?thesis using f by simp
  qed
  have body: "if stop
          then (case pick of
                  None \<Rightarrow> pendingCalls (handleElevatorAtFloor i s) = pendingCalls s
                          \<and> totalCallsProcessed (handleElevatorAtFloor i s) = totalCallsProcessed s
                | Some call \<Rightarrow>
                    pendingCalls (handleElevatorAtFloor i s)
                      = filter (\<lambda>c. call_id c \<noteq> call_id call) (pendingCalls s)
                    \<and> totalCallsProcessed (handleElevatorAtFloor i s) = totalCallsProcessed s + 1
                    \<and> (distinct (map call_id (pendingCalls s)) \<longrightarrow>
                         pendingCalls (handleElevatorAtFloor i s) = remove1 call (pendingCalls s)
                         \<and> length (pendingCalls (handleElevatorAtFloor i s)) + 1
                             = length (pendingCalls s)))
          else pendingCalls (handleElevatorAtFloor i s) = pendingCalls s
               \<and> totalCallsProcessed (handleElevatorAtFloor i s) = totalCallsProcessed s"
  proof (cases stop)
    case False
    then show ?thesis using q t by simp
  next
    case True
    show ?thesis
    proof (cases pick)
      case None
      then show ?thesis using True q t by simp
    next
      case (Some call)
      then show ?thesis using True q t rm [OF Some] by auto
    qed
  qed
  show ?thesis using le body unfolding stop_def pick_def by simp
qed

text \<open>Two pending calls with different ids at floor 5 are assigned to the car standing
  there: the first is removed, the second stays, and one call is counted.\<close>

theorem handleElevatorAtFloor_one_pickup_witness:
  "0 < length (elevators service_ex)
   \<and> distinct (map call_id (pendingCalls service_ex))
   \<and> length (filter (\<lambda>call. call_floor call = currentFloor (elevators service_ex ! 0)
                           \<and> assignedElevator call = Some (elevator_id (elevators service_ex ! 0)))
                    (pendingCalls service_ex)) = 2
   \<and> pendingCalls (handleElevatorAtFloor 0 service_ex)
       = [call_at ''call-2-1000'' 5 DOWN (Some 1), call_at ''call-3-1000'' 3 UP (Some 2)]
   \<and> totalCallsProcessed (handleElevatorAtFloor 0 service_ex)
       = totalCallsProcessed service_ex + 1"
proof -
  have h1: "0 < length (elevators service_ex)" by (simp add: service_ex_def)
  have h2: "distinct (map call_id (pendingCalls service_ex))"
    by (simp add: service_ex_def call_at_def)
  have n: "length (filter (\<lambda>call. call_floor call = currentFloor (elevators service_ex ! 0)
                           \<and> assignedElevator call = Some (elevator_id (elevators service_ex ! 0)))
                    (pendingCalls service_ex)) = 2"
    by (simp add: service_ex_def call_at_def car_at_def)
  have "pendingCalls (handleElevatorAtFloor 0 service_ex)
       = [call_at ''call-2-1000'' 5 DOWN (Some 1), call_at ''call-3-1000'' 3 UP (Some 2)]
   \<and> totalCallsProcessed (handleElevatorAtFloor 0 service_ex)
       = totalCallsProcessed service_ex + 1"
    using handleElevatorAtFloor_one_pickup [OF h1] h2
    by (simp add: service_ex_def call_at_def car_at_def shouldElevatorStop_def Set_has_def)
  then show ?thesis using h1 h2 n by simp
qed


section \<open>The tick\<close>

lemma fold_fixed: "(\<And>x. x \<in> set xs \<Longrightarrow> f x s = s) \<Longrightarrow> fold f xs s = s"
  by (induction xs) simp_all

text \<open>
  C7. With no pending call and every car available, idle and without destinations, one
  tick returns the state it was given, and so does any number of ticks.
\<close>

theorem processElevatorLogic_idle_fixed_point:
  assumes "pendingCalls s = []"
    and "\<forall>car\<in>set (elevators s). \<not> isMoving car \<and> \<not> isLoading car
            \<and> direction car = IDLE \<and> destinationFloors car = []"
  shows "processElevatorLogic s = s \<and> ticks n s = s"
proof -
  have step: "process_elevator i s = s" if "i < length (elevators s)" for i
  proof -
    have car: "direction (elevators s ! i) = IDLE" "destinationFloors (elevators s ! i) = []"
      using assms(2) that by simp_all
    have h: "handleElevatorAtFloor i s = s"
      using car assms(1)
      by (simp add: handleElevatorAtFloor_def shouldElevatorStop_def Set_has_def)
    have "getNextDestination (elevators s ! i) (pendingCalls s) = None"
      using car assms(1) by (simp add: getNextDestination_def new_Set_def Set_size_def)
    then have m: "moveElevatorToNextDestination i s = s"
      using car by (simp add: moveElevatorToNextDestination_def)
    show ?thesis using h m by (simp add: process_elevator_def)
  qed
  have "fold process_elevator [0..<length (elevators s)] s = s"
    by (rule fold_fixed) (simp add: step)
  moreover have "reassignUnassignedCalls s = s"
    using assms(1) by (simp add: reassignUnassignedCalls_def)
  ultimately have tick: "processElevatorLogic s = s"
    by (simp add: processElevatorLogic_def)
  have "ticks n s = s"
    unfolding ticks_def by (induction n) (simp_all add: tick)
  then show ?thesis using tick by simp
qed


theorem processElevatorLogic_idle_fixed_point_witness:
  "pendingCalls service_idle = []
   \<and> list_all (\<lambda>car. \<not> isMoving car \<and> \<not> isLoading car
                      \<and> direction car = IDLE \<and> destinationFloors car = [])
               (elevators service_idle)
   \<and> processElevatorLogic service_idle = service_idle
   \<and> ticks 3 service_idle = service_idle"
proof -
  have h1: "pendingCalls service_idle = []" by (simp add: service_idle_def)
  have h2: "\<forall>car\<in>set (elevators service_idle). \<not> isMoving car \<and> \<not> isLoading car
            \<and> direction car = IDLE \<and> destinationFloors car = []"
    by (simp add: service_idle_def car_at_def)
  show ?thesis
    using processElevatorLogic_idle_fixed_point [OF h1 h2, of 3] h1 h2
    by (simp add: list_all_iff)
qed


end
